theory Spec2Isabelle
  imports Main "HOL-Library.Sublist"
begin

section \<open>Data model\<close>

text \<open>
  The engine of \<^verbatim>\<open>src/backend/data_store.py\<close> works on JSON dictionaries. A category
  dictionary is read through \<^verbatim>\<open>c.get('id')\<close>, \<^verbatim>\<open>c['id']\<close> and \<^verbatim>\<open>c.get('parentId')\<close>; an
  item dictionary through \<^verbatim>\<open>item['id']\<close> and \<^verbatim>\<open>item.get(...)\<close> for every other key. A key
  that \<^verbatim>\<open>.get\<close> may find absent (or \<^verbatim>\<open>null\<close>) is an option field; \<^verbatim>\<open>item.copy()\<close> followed
  by one assignment is a record update.
\<close>

record category =
  cat_id :: string
  parentId :: "string option"
  cat_name :: string
  createdAt :: int

record item =
  item_id :: string
  item_type :: "string option"
  content :: "string option"
  fileName :: "string option"
  categoryIds :: "string list option"
  description :: "string option"

text \<open>\<^verbatim>\<open>item.get('categoryIds', [])\<close>\<close>

definition get_categoryIds :: "item \<Rightarrow> string list" where
  "get_categoryIds it = (case categoryIds it of None \<Rightarrow> [] | Some cs \<Rightarrow> cs)"

text \<open>
  \<^verbatim>\<open>list(s)\<close> for a Python set \<open>s\<close> enumerates the elements once each, in an order the
  source does not determine. The model represents a set by a list of its elements and
  enumerates it in order of first occurrence; the theorems below speak of the
  \<^const>\<open>set\<close> of such a list only, so they hold for every enumeration order.
\<close>

definition list_of_set :: "string list \<Rightarrow> string list" where
  "list_of_set xs = remdups xs"

text \<open>
  The messages the engine returns. The source returns them as strings; each constructor
  stands for one message (its argument is the name or id interpolated into the message).
\<close>

datatype message =
    NameEmpty
  | DuplicateEntry string
  | DuplicateFile string
  | NoItemIds
  | NoCategoryIds
  | NothingModified
  | CategoryNotInItem string
  | LastCategoryLeft
  | ItemMissing string

text \<open>The error kinds of the specification and the messages that belong to each.\<close>

datatype error_kind =
  EmptyName | DuplicateName | NotFound | InvalidCategory | LastCategory | MissingInput | NoEffect

fun kind_of :: "message \<Rightarrow> error_kind" where
  "kind_of NameEmpty = EmptyName"
| "kind_of (DuplicateEntry n) = DuplicateName"
| "kind_of (DuplicateFile n) = DuplicateName"
| "kind_of NoItemIds = MissingInput"
| "kind_of NoCategoryIds = MissingInput"
| "kind_of NothingModified = NoEffect"
| "kind_of (CategoryNotInItem c) = InvalidCategory"
| "kind_of LastCategoryLeft = LastCategory"
| "kind_of (ItemMissing i) = NotFound"

section \<open>Category tree\<close>

text \<open>
  \<^verbatim>\<open>get_ancestor_ids\<close>: the \<^verbatim>\<open>while True\<close> loop. \<^verbatim>\<open>next((c for c in categories if
  c.get('id') == current_id), None)\<close> is \<^const>\<open>find\<close>; the loop breaks when no category
  has the id or when its \<^verbatim>\<open>parentId\<close> is falsy (absent, \<^verbatim>\<open>None\<close> or the empty string).
  The loop has no other exit and no bound, so it is a partial function: \<^const>\<open>None\<close> is
  the run that never leaves the loop (the list \<^verbatim>\<open>ancestors\<close> grows until memory is
  exhausted).
\<close>

partial_function (option) ancestors_loop ::
  "category list \<Rightarrow> string \<Rightarrow> string list \<Rightarrow> string list option" where
  "ancestors_loop categories current_id ancestors =
     (case find (\<lambda>c. cat_id c = current_id) categories of
        None \<Rightarrow> Some ancestors
      | Some category \<Rightarrow>
          (case parentId category of
             None \<Rightarrow> Some ancestors
           | Some p \<Rightarrow>
               if p = [] then Some ancestors
               else ancestors_loop categories p (ancestors @ [p])))"

definition get_ancestor_ids :: "string \<Rightarrow> category list \<Rightarrow> string list option" where
  "get_ancestor_ids category_id categories =
     (if categories = [] then Some [category_id]
      else ancestors_loop categories category_id [category_id])"

text \<open>
  \<^verbatim>\<open>get_descendant_ids\<close>: the children are the categories whose \<^verbatim>\<open>parentId\<close> equals the
  root id, \<^verbatim>\<open>ids\<close> starts as their ids, and the \<^verbatim>\<open>for\<close> loop extends it with the result of
  the recursive call on each child in turn. \<open>extend_each\<close> is that loop, with the
  recursive call as its first argument. The recursion has no bound of its own, so the
  function is partial: \<^const>\<open>None\<close> is the call that recurses without end, which the
  Python runtime aborts with \<^verbatim>\<open>RecursionError\<close> instead of returning a list.
\<close>

fun extend_each ::
  "(string \<Rightarrow> string list option) \<Rightarrow> category list \<Rightarrow> string list \<Rightarrow> string list option" where
  "extend_each rec [] ids = Some ids"
| "extend_each rec (child # rest) ids =
     Option.bind (rec (cat_id child)) (\<lambda>sub. extend_each rec rest (ids @ sub))"

lemma extend_each_mono [partial_function_mono]:
  assumes "\<And>x. mono_option (\<lambda>f. B f x)"
  shows "mono_option (\<lambda>f. extend_each (B f) children ids)"
proof (induction children arbitrary: ids)
  case Nil
  show ?case by (simp add: option.const_mono)
next
  case (Cons c cs)
  show ?case
    unfolding extend_each.simps
    by (rule bind_mono [OF assms Cons.IH])
qed

partial_function (option) get_descendant_ids ::
  "string \<Rightarrow> category list \<Rightarrow> string list option" where
  "get_descendant_ids root_id categories =
     (if categories = [] then Some []
      else let children = filter (\<lambda>c. parentId c = Some root_id) categories
           in extend_each (\<lambda>x. get_descendant_ids x categories) children
                (map cat_id children))"

declare get_descendant_ids.simps [code]

text \<open>
  \<^verbatim>\<open>expand_category_ids\<close>: the loop updates the set \<^verbatim>\<open>expanded\<close> with the ancestor chain of
  each id.
\<close>

fun expand_loop :: "category list \<Rightarrow> string list \<Rightarrow> string list \<Rightarrow> string list option" where
  "expand_loop categories [] expanded = Some expanded"
| "expand_loop categories (c # rest) expanded =
     Option.bind (get_ancestor_ids c categories)
       (\<lambda>chain. expand_loop categories rest (expanded @ chain))"

definition expand_category_ids :: "string list \<Rightarrow> category list \<Rightarrow> string list option" where
  "expand_category_ids category_ids categories =
     map_option list_of_set (expand_loop categories category_ids [])"

text \<open>
  The parent graph of a category list: an edge from \<open>p\<close> to \<open>cat_id c\<close> for every category
  \<open>c\<close> whose \<^verbatim>\<open>parentId\<close> is \<open>p\<close>. The list is acyclic when no id reaches itself along
  these edges (no category is its own ancestor). A \<^verbatim>\<open>parentId\<close> that names no category
  of the list is an edge like any other, and so is a \<^verbatim>\<open>parentId\<close> that is the empty
  string: \<^verbatim>\<open>get_ancestor_ids\<close> does not follow it, but \<^verbatim>\<open>get_descendant_ids\<close> compares
  it with the root id like any other value.
\<close>

definition parent_edges :: "category list \<Rightarrow> (string \<times> string) set" where
  "parent_edges categories =
     set (concat (map (\<lambda>c. case parentId c of None \<Rightarrow> [] | Some p \<Rightarrow> [(p, cat_id c)])
                      categories))"

definition acyclic_categories :: "category list \<Rightarrow> bool" where
  "acyclic_categories categories = acyclic (parent_edges categories)"

section \<open>Tagging engine\<close>

text \<open>
  \<^verbatim>\<open>toggle_category_association\<close>. Step 1 decides \<^verbatim>\<open>all_have_category\<close> from the selected
  items; step 2 computes the ids to remove or to add; step 3 maps over all items.
\<close>

definition toggle_category_association ::
  "item list \<Rightarrow> string list \<Rightarrow> string \<Rightarrow> category list \<Rightarrow> item list option" where
  "toggle_category_association items item_ids category_id categories =
     (let selected_items = filter (\<lambda>it. item_id it \<in> set item_ids) items;
          all_have_category =
            list_all (\<lambda>it. category_id \<in> set (get_categoryIds it)) selected_items
      in if all_have_category then
           Option.bind (get_descendant_ids category_id categories) (\<lambda>descendants.
             let categories_to_remove =
                   (if descendants \<noteq> [] then category_id # descendants else [category_id])
             in Some (map (\<lambda>it.
                  if item_id it \<in> set item_ids
                  then it\<lparr>categoryIds := Some (list_of_set
                         (filter (\<lambda>c. c \<notin> set categories_to_remove) (get_categoryIds it)))\<rparr>
                  else it) items))
         else
           Option.bind (get_descendant_ids category_id categories) (\<lambda>descendants.
             Option.bind (if descendants \<noteq> [] then Some [category_id]
                          else get_ancestor_ids category_id categories)
               (\<lambda>categories_to_add.
                  Some (map (\<lambda>it.
                    if item_id it \<in> set item_ids
                    then it\<lparr>categoryIds := Some (list_of_set
                           (get_categoryIds it @ categories_to_add))\<rparr>
                    else it) items))))"

text \<open>
  \<^verbatim>\<open>batch_add_tags\<close>; \<^verbatim>\<open>if categories:\<close> is false for \<^verbatim>\<open>None\<close> and for the empty list, which
  the model both writes \<open>[]\<close>.
\<close>

definition batch_add_tags ::
  "item list \<Rightarrow> string list \<Rightarrow> string \<Rightarrow> category list \<Rightarrow> item list option" where
  "batch_add_tags items item_ids category_id categories =
     Option.bind (if categories \<noteq> [] then expand_category_ids [category_id] categories
                  else Some [category_id])
       (\<lambda>category_ids_to_add.
          Some (map (\<lambda>it.
            if item_id it \<in> set item_ids
            then it\<lparr>categoryIds := Some (list_of_set
                   (get_categoryIds it @ category_ids_to_add))\<rparr>
            else it) items))"

text \<open>
  \<^verbatim>\<open>s.strip()\<close> removes leading and trailing whitespace; which characters are whitespace
  is a matter of the Python runtime, so it is the parameter \<open>isspace\<close>.
\<close>

definition strip :: "(char \<Rightarrow> bool) \<Rightarrow> string \<Rightarrow> string" where
  "strip isspace s = rev (dropWhile isspace (rev (dropWhile isspace s)))"

text \<open>
  \<^verbatim>\<open>batch_edit\<close>; \<^verbatim>\<open>description\<close> and \<^verbatim>\<open>category_id\<close> default to \<^verbatim>\<open>None\<close>, and a truthiness test
  on a string is false for \<^verbatim>\<open>None\<close> and for the empty string.
\<close>

definition batch_edit ::
  "(char \<Rightarrow> bool) \<Rightarrow> item list \<Rightarrow> string list \<Rightarrow> string option \<Rightarrow> string option \<Rightarrow> item list" where
  "batch_edit isspace items item_ids descr category_id =
     map (\<lambda>it.
       if item_id it \<in> set item_ids then
         (let copy1 = (case descr of
                         Some d \<Rightarrow> if d \<noteq> [] \<and> strip isspace d \<noteq> []
                                   then it\<lparr>description := Some d\<rparr> else it
                       | None \<Rightarrow> it)
          in case category_id of
               Some c \<Rightarrow> if c \<noteq> [] \<and> c \<notin> set (get_categoryIds it)
                         then copy1\<lparr>categoryIds := Some (get_categoryIds it @ [c])\<rparr>
                         else copy1
             | None \<Rightarrow> copy1)
       else it) items"

definition batch_delete :: "item list \<Rightarrow> string list \<Rightarrow> item list" where
  "batch_delete items item_ids = filter (\<lambda>it. item_id it \<notin> set item_ids) items"

text \<open>
  \<^verbatim>\<open>remove_category_from_item\<close>: the loop over the items carries \<^verbatim>\<open>item_found\<close> and
  \<^verbatim>\<open>updated_items\<close>; a \<^verbatim>\<open>return\<close> inside the loop is \<^const>\<open>Inl\<close>.
\<close>

fun remove_loop ::
  "string \<Rightarrow> string \<Rightarrow> item list \<Rightarrow> bool \<Rightarrow> item list \<Rightarrow> message + (bool \<times> item list)" where
  "remove_loop iid category_id [] item_found updated_items = Inr (item_found, updated_items)"
| "remove_loop iid category_id (it # rest) item_found updated_items =
     (if item_id it = iid then
        (let category_ids = get_categoryIds it in
         if category_id \<notin> set category_ids then Inl (CategoryNotInItem category_id)
         else
           (let new_category_ids = filter (\<lambda>cid. cid \<noteq> category_id) category_ids in
            if length new_category_ids = 0 then Inl LastCategoryLeft
            else remove_loop iid category_id rest True
                   (updated_items @ [it\<lparr>categoryIds := Some new_category_ids\<rparr>])))
      else remove_loop iid category_id rest item_found (updated_items @ [it]))"

definition remove_category_from_item ::
  "item list \<Rightarrow> string \<Rightarrow> string \<Rightarrow> item list \<times> message option" where
  "remove_category_from_item items iid category_id =
     (case remove_loop iid category_id items False [] of
        Inl msg \<Rightarrow> (items, Some msg)
      | Inr (item_found, updated_items) \<Rightarrow>
          if \<not> item_found then (items, Some (ItemMissing iid))
          else (updated_items, None))"

text \<open>
  \<^verbatim>\<open>batch_remove_categories\<close>: the loop carries \<^verbatim>\<open>updated_items\<close> and \<^verbatim>\<open>modified_count\<close>.
\<close>

fun batch_remove_loop ::
  "string list \<Rightarrow> string list \<Rightarrow> item list \<Rightarrow> item list \<Rightarrow> nat \<Rightarrow> item list \<times> nat" where
  "batch_remove_loop item_ids categories_to_remove [] updated_items modified_count =
     (updated_items, modified_count)"
| "batch_remove_loop item_ids categories_to_remove (it # rest) updated_items modified_count =
     (if item_id it \<in> set item_ids then
        (let original_category_ids = get_categoryIds it;
             new_category_ids =
               filter (\<lambda>cid. cid \<notin> set categories_to_remove) original_category_ids
         in if length new_category_ids = 0
            then batch_remove_loop item_ids categories_to_remove rest
                   (updated_items @ [it]) modified_count
            else batch_remove_loop item_ids categories_to_remove rest
                   (updated_items @ [it\<lparr>categoryIds := Some new_category_ids\<rparr>])
                   (if length new_category_ids \<noteq> length original_category_ids
                    then modified_count + 1 else modified_count))
      else batch_remove_loop item_ids categories_to_remove rest
             (updated_items @ [it]) modified_count)"

definition batch_remove_categories ::
  "item list \<Rightarrow> string list \<Rightarrow> string list \<Rightarrow> item list \<times> message option" where
  "batch_remove_categories items item_ids category_ids =
     (if item_ids = [] then (items, Some NoItemIds)
      else if category_ids = [] then (items, Some NoCategoryIds)
      else
        (case batch_remove_loop item_ids category_ids items [] 0 of
           (updated_items, modified_count) \<Rightarrow>
             if modified_count = 0 then (items, Some NothingModified)
             else (updated_items, None)))"

section \<open>Item filter\<close>

text \<open>
  The category filter of \<^verbatim>\<open>filter_items\<close>. \<open>matches_all\<close> is the inner loop over the
  filter ids, which breaks at the first id whose branch holds none of the item's
  categories; \<open>category_filter\<close> is the outer loop, which skips an item without
  categories before any descendant is computed.
\<close>

fun matches_all :: "category list \<Rightarrow> string list \<Rightarrow> string list \<Rightarrow> bool option" where
  "matches_all categories item_category_ids [] = Some True"
| "matches_all categories item_category_ids (filter_id # rest) =
     Option.bind (get_descendant_ids filter_id categories) (\<lambda>descendants.
       let valid_branch_ids = filter_id # descendants in
       if \<not> list_ex (\<lambda>cid. cid \<in> set valid_branch_ids) item_category_ids
       then Some False
       else matches_all categories item_category_ids rest)"

fun category_filter :: "category list \<Rightarrow> string list \<Rightarrow> item list \<Rightarrow> item list option" where
  "category_filter categories selected_category_ids [] = Some []"
| "category_filter categories selected_category_ids (it # rest) =
     (let item_category_ids = get_categoryIds it in
      if item_category_ids = []
      then category_filter categories selected_category_ids rest
      else Option.bind (matches_all categories item_category_ids selected_category_ids)
             (\<lambda>m. Option.bind (category_filter categories selected_category_ids rest)
                (\<lambda>filtered. Some (if m then it # filtered else filtered))))"

text \<open>
  The text filter. \<^verbatim>\<open>s.find(query) != -1\<close> holds when \<open>query\<close> occurs in \<open>s\<close> as a
  contiguous block (\<^const>\<open>sublist\<close>); \<^verbatim>\<open>(item.get(k) or '')\<close> is the empty string for an
  absent key. \<^verbatim>\<open>str.lower\<close> belongs to the Python runtime and is the parameter \<open>lower\<close>.
\<close>

definition or_empty :: "string option \<Rightarrow> string" where
  "or_empty v = (case v of None \<Rightarrow> [] | Some s \<Rightarrow> s)"

definition text_match :: "(string \<Rightarrow> string) \<Rightarrow> string \<Rightarrow> item \<Rightarrow> bool" where
  "text_match lower query it =
     (let matches_desc = sublist query (lower (or_empty (description it)));
          matches_filename = sublist query (lower (or_empty (fileName it)));
          matches_content =
            (if item_type it = Some ''text'' \<or> item_type it = Some ''url''
             then sublist query (lower (or_empty (content it))) else False)
      in matches_desc \<or> matches_filename \<or> matches_content)"

definition filter_items ::
  "(string \<Rightarrow> string) \<Rightarrow> (char \<Rightarrow> bool) \<Rightarrow> item list \<Rightarrow> category list \<Rightarrow>
   string list option \<Rightarrow> string option \<Rightarrow> item list option" where
  "filter_items lower isspace items categories selected_category_ids search_query =
     Option.bind
       (case selected_category_ids of
          Some sel \<Rightarrow> if sel \<noteq> [] then category_filter categories sel items else Some items
        | None \<Rightarrow> Some items)
       (\<lambda>result.
          Some (case search_query of
                  Some q \<Rightarrow> if q \<noteq> [] \<and> strip isspace q \<noteq> []
                            then filter (text_match lower (lower q)) result else result
                | None \<Rightarrow> result))"

section \<open>Name validator\<close>

text \<open>
  \<^verbatim>\<open>validate_item_name\<close>: the loop returns at the first collision. An item is skipped
  when \<^verbatim>\<open>exclude_id and item.get('id') == exclude_id\<close>: the exclusion applies only for a
  truthy (given and non-empty) \<^verbatim>\<open>exclude_id\<close>.
\<close>

fun validate_loop :: "string \<Rightarrow> string \<Rightarrow> string option \<Rightarrow> item list \<Rightarrow> message option" where
  "validate_loop item_name ty exclude_id [] = None"
| "validate_loop item_name ty exclude_id (it # rest) =
     (if (case exclude_id of None \<Rightarrow> False | Some e \<Rightarrow> e \<noteq> [] \<and> item_id it = e)
      then validate_loop item_name ty exclude_id rest
      else if ty = ''text'' \<or> ty = ''url'' then
        (if (item_type it = Some ''text'' \<or> item_type it = Some ''url'')
            \<and> content it = Some item_name
         then Some (DuplicateEntry item_name)
         else validate_loop item_name ty exclude_id rest)
      else
        (if item_type it = Some ty \<and> fileName it = Some item_name
         then Some (DuplicateFile item_name)
         else validate_loop item_name ty exclude_id rest))"

definition validate_item_name ::
  "(char \<Rightarrow> bool) \<Rightarrow> item list \<Rightarrow> string \<Rightarrow> string \<Rightarrow> string option \<Rightarrow> message option" where
  "validate_item_name isspace items item_name ty exclude_id =
     (if item_name = [] \<or> strip isspace item_name = [] then Some NameEmpty
      else validate_loop item_name ty exclude_id items)"

section \<open>Example data\<close>

text \<open>
  The tree of the specification's scenarios: \<open>A\<close> is a root, \<open>B\<close> a child of \<open>A\<close> and \<open>C\<close>
  a child of \<open>B\<close>; three items tagged \<open>[C, B, A]\<close>, \<open>[A]\<close> and \<open>[C]\<close>, one item
  without the \<^verbatim>\<open>categoryIds\<close> key, and one item whose id is the empty string.
\<close>

definition ex_categories :: "category list" where
  "ex_categories =
     [\<lparr>cat_id = ''A'', parentId = None, cat_name = ''root'', createdAt = 0\<rparr>,
      \<lparr>cat_id = ''B'', parentId = Some ''A'', cat_name = ''middle'', createdAt = 1\<rparr>,
      \<lparr>cat_id = ''C'', parentId = Some ''B'', cat_name = ''leaf'', createdAt = 2\<rparr>]"

definition item_abc :: item where
  "item_abc = \<lparr>item_id = ''i1'', item_type = Some ''text'', content = Some ''note'',
     fileName = None, categoryIds = Some [''C'', ''B'', ''A''], description = None\<rparr>"

definition item_a :: item where
  "item_a = \<lparr>item_id = ''i2'', item_type = Some ''file'', content = None,
     fileName = Some ''report.pdf'', categoryIds = Some [''A''],
     description = Some ''quarterly report''\<rparr>"

definition item_c :: item where
  "item_c = \<lparr>item_id = ''i3'', item_type = Some ''url'', content = Some ''http://x'',
     fileName = None, categoryIds = Some [''C''], description = None\<rparr>"

definition item_untagged :: item where
  "item_untagged = \<lparr>item_id = ''i4'', item_type = Some ''text'', content = Some ''loose'',
     fileName = None, categoryIds = None, description = None\<rparr>"

definition item_blank_id :: item where
  "item_blank_id = \<lparr>item_id = [], item_type = Some ''file'', content = None,
     fileName = Some ''report.pdf'', categoryIds = Some [''A''], description = None\<rparr>"

text \<open>
  A list with a cycle (\<open>A\<close> and \<open>B\<close> are each other's parent), and a list whose only
  category names a parent that is not in the list.
\<close>

definition ex_cycle :: "category list" where
  "ex_cycle =
     [\<lparr>cat_id = ''A'', parentId = Some ''B'', cat_name = ''a'', createdAt = 0\<rparr>,
      \<lparr>cat_id = ''B'', parentId = Some ''A'', cat_name = ''b'', createdAt = 1\<rparr>]"

definition ex_dangling :: "category list" where
  "ex_dangling =
     [\<lparr>cat_id = ''X'', parentId = Some ''gone'', cat_name = ''x'', createdAt = 0\<rparr>]"

text \<open>
  Instances of the runtime's \<^verbatim>\<open>str.isspace\<close> and \<^verbatim>\<open>str.lower\<close> for ASCII text: the
  ASCII characters that \<^verbatim>\<open>str.strip()\<close> removes are the space, the controls \<open>0x09\<close> to
  \<open>0x0D\<close> and the separators \<open>0x1C\<close> to \<open>0x1F\<close>. Characters beyond ASCII are outside
  these instances; the theorems hold for every \<open>isspace\<close> and \<open>lower\<close>.
\<close>

definition ex_isspace :: "char \<Rightarrow> bool" where
  "ex_isspace ch = (ch \<in> set [CHR '' '', CHR 0x09, CHR 0x0A, CHR 0x0B, CHR 0x0C, CHR 0x0D,
                                CHR 0x1C, CHR 0x1D, CHR 0x1E, CHR 0x1F])"

definition ex_lower :: "string \<Rightarrow> string" where
  "ex_lower s =
     map (\<lambda>ch. case map_of (zip ''ABCDEFGHIJKLMNOPQRSTUVWXYZ'' ''abcdefghijklmnopqrstuvwxyz'') ch of
                 None \<Rightarrow> ch | Some l \<Rightarrow> l) s"

text \<open>
  An operation edits selected items only when its result has the ids of the input, in
  the same order, and holds every item that is not selected as it was.
\<close>

definition edits_selected :: "(item \<Rightarrow> bool) \<Rightarrow> item list \<Rightarrow> item list \<Rightarrow> bool" where
  "edits_selected selected items result \<longleftrightarrow>
     map item_id result = map item_id items
     \<and> (\<forall>i<length items. \<not> selected (items ! i) \<longrightarrow> result ! i = items ! i)"

section \<open>Removing one category from one item\<close>

text \<open>
  Where no item has the id, the loop passes over every item; otherwise the first item
  with the id decides whether the loop returns early.
\<close>

lemma remove_loop_absent:
  "find (\<lambda>it. item_id it = iid) items = None \<Longrightarrow>
   remove_loop iid c items f u = Inr (f, u @ items)"
  by (induction items arbitrary: f u) (auto split: if_splits)

lemma remove_loop_first:
  "find (\<lambda>it. item_id it = iid) items = Some it \<Longrightarrow>
   remove_loop iid c items f u =
     (if c \<notin> set (get_categoryIds it) then Inl (CategoryNotInItem c)
      else if filter (\<lambda>cid. cid \<noteq> c) (get_categoryIds it) = [] then Inl LastCategoryLeft
      else remove_loop iid c (tl (dropWhile (\<lambda>it. item_id it \<noteq> iid) items)) True
             (u @ takeWhile (\<lambda>it. item_id it \<noteq> iid) items @
               [it\<lparr>categoryIds := Some (filter (\<lambda>cid. cid \<noteq> c) (get_categoryIds it))\<rparr>]))"
  by (induction items arbitrary: f u) (auto split: if_splits simp: Let_def)

lemma remove_category_from_item_error_fst:
  "snd (remove_category_from_item items iid c) \<noteq> None \<Longrightarrow>
   fst (remove_category_from_item items iid c) = items"
  by (auto simp: remove_category_from_item_def split: sum.splits if_splits prod.splits)

text \<open>
  C5. \<^verbatim>\<open>remove_category_from_item\<close> returns the \<open>NotFound\<close> message when no item has
  the id; for the (first) item with the id it returns the \<open>InvalidCategory\<close> message when
  the item does not hold the category and the \<open>LastCategory\<close> message when the item holds
  it and nothing else, in particular when its categories are exactly that one. Whenever
  a message is returned, the returned list is the input list.
\<close>

theorem remove_category_from_item_errors:
  "(find (\<lambda>it. item_id it = iid) items = None \<longrightarrow>
      remove_category_from_item items iid c = (items, Some (ItemMissing iid))
      \<and> kind_of (ItemMissing iid) = NotFound)
   \<and> (\<forall>it. find (\<lambda>it. item_id it = iid) items = Some it \<longrightarrow>
        (c \<notin> set (get_categoryIds it) \<longrightarrow>
           remove_category_from_item items iid c = (items, Some (CategoryNotInItem c))
           \<and> kind_of (CategoryNotInItem c) = InvalidCategory)
      \<and> (c \<in> set (get_categoryIds it) \<and> set (get_categoryIds it) - {c} = {} \<longrightarrow>
           remove_category_from_item items iid c = (items, Some LastCategoryLeft)
           \<and> kind_of LastCategoryLeft = LastCategory)
      \<and> (get_categoryIds it = [c] \<longrightarrow>
           remove_category_from_item items iid c = (items, Some LastCategoryLeft)))
   \<and> (snd (remove_category_from_item items iid c) \<noteq> None \<longrightarrow>
        fst (remove_category_from_item items iid c) = items)"
proof -
  have empty_filter: "filter (\<lambda>cid. cid \<noteq> c) xs = []" if "set xs - {c} = {}" for xs
    using that by (induction xs) (auto split: if_splits)
  show ?thesis
    using remove_category_from_item_error_fst [of items iid c]
    by (auto simp: remove_category_from_item_def remove_loop_absent remove_loop_first
        empty_filter)
qed

theorem remove_category_from_item_errors_witness:
  "remove_category_from_item [item_abc, item_a] ''i9'' ''A''
     = ([item_abc, item_a], Some (ItemMissing ''i9''))
   \<and> remove_category_from_item [item_abc, item_a] ''i2'' ''B''
     = ([item_abc, item_a], Some (CategoryNotInItem ''B''))
   \<and> remove_category_from_item [item_abc, item_a] ''i2'' ''A''
     = ([item_abc, item_a], Some LastCategoryLeft)"
  using remove_category_from_item_errors [of "''i9''" "[item_abc, item_a]" "''A''"]
    remove_category_from_item_errors [of "''i2''" "[item_abc, item_a]" "''B''"]
    remove_category_from_item_errors [of "''i2''" "[item_abc, item_a]" "''A''"]
  by (simp add: item_abc_def item_a_def get_categoryIds_def)

section \<open>Removing categories from a selection\<close>

text \<open>
  The loop of \<^verbatim>\<open>batch_remove_categories\<close> in closed form: every selected item whose
  remaining categories are not empty gets them, and the counter counts the selected
  items whose remaining categories are neither empty nor all of the original ones.
\<close>

lemma batch_remove_loop_result:
  "batch_remove_loop item_ids cs items u n =
     (u @ map (\<lambda>it.
         if item_id it \<in> set item_ids
            \<and> filter (\<lambda>cid. cid \<notin> set cs) (get_categoryIds it) \<noteq> []
         then it\<lparr>categoryIds := Some (filter (\<lambda>cid. cid \<notin> set cs) (get_categoryIds it))\<rparr>
         else it) items,
      n + length (filter (\<lambda>it.
         item_id it \<in> set item_ids
         \<and> filter (\<lambda>cid. cid \<notin> set cs) (get_categoryIds it) \<noteq> []
         \<and> filter (\<lambda>cid. cid \<notin> set cs) (get_categoryIds it) \<noteq> get_categoryIds it) items))"
proof (induction items arbitrary: u n)
  case Nil
  show ?case by simp
next
  case (Cons it rest)
  have same: "length (filter P xs) = length xs \<longleftrightarrow> filter P xs = xs" for P and xs :: "string list"
    by (metis filter_True length_filter_less less_irrefl_nat)
  show ?case
    by (simp add: Cons.IH Let_def same)
qed

text \<open>
  C4. With an empty \<open>item_ids\<close> or \<open>category_ids\<close> the items come back unchanged with a
  \<open>MissingInput\<close> message. Otherwise, when some selected item is actually modified (its
  remaining categories are not empty and differ from the original ones), every selected
  item whose remaining categories are not empty gets them and every other item is
  returned as it is, with no message; when no item is modified, the input list comes
  back with the \<open>NoEffect\<close> message.
\<close>

theorem batch_remove_categories_spec:
  "(item_ids = [] \<or> category_ids = [] \<longrightarrow>
      fst (batch_remove_categories items item_ids category_ids) = items
      \<and> map_option kind_of (snd (batch_remove_categories items item_ids category_ids))
          = Some MissingInput)
   \<and> (item_ids \<noteq> [] \<and> category_ids \<noteq> [] \<longrightarrow>
       (let remaining = (\<lambda>it. filter (\<lambda>cid. cid \<notin> set category_ids) (get_categoryIds it));
            modified = (\<lambda>it. item_id it \<in> set item_ids \<and> remaining it \<noteq> []
                               \<and> remaining it \<noteq> get_categoryIds it)
        in if \<exists>it \<in> set items. modified it
           then batch_remove_categories items item_ids category_ids =
                  (map (\<lambda>it. if item_id it \<in> set item_ids \<and> remaining it \<noteq> []
                              then it\<lparr>categoryIds := Some (remaining it)\<rparr> else it) items,
                   None)
           else batch_remove_categories items item_ids category_ids
                  = (items, Some NothingModified)
                \<and> kind_of NothingModified = NoEffect))"
proof -
  show ?thesis
    unfolding batch_remove_categories_def batch_remove_loop_result Let_def
    by (auto simp: filter_empty_conv)
qed

theorem batch_remove_categories_spec_witness:
  "fst (batch_remove_categories [item_abc, item_a, item_c] [] [''A''])
     = [item_abc, item_a, item_c]
   \<and> map_option kind_of (snd (batch_remove_categories [item_abc, item_a, item_c] [] [''A'']))
     = Some MissingInput
   \<and> batch_remove_categories [item_abc, item_a, item_c] [''i1'', ''i2''] [''A'', ''B''] =
     ([item_abc\<lparr>categoryIds := Some [''C'']\<rparr>, item_a, item_c], None)
   \<and> batch_remove_categories [item_abc, item_a, item_c] [''i2''] [''A'', ''B''] =
     ([item_abc, item_a, item_c], Some NothingModified)"
  using batch_remove_categories_spec [of "[]" "[''A'']" "[item_abc, item_a, item_c]"]
    batch_remove_categories_spec [of "[''i1'', ''i2'']" "[''A'', ''B'']" "[item_abc, item_a, item_c]"]
    batch_remove_categories_spec [of "[''i2'']" "[''A'', ''B'']" "[item_abc, item_a, item_c]"]
  by (simp add: item_abc_def item_a_def item_c_def get_categoryIds_def Let_def)

section \<open>Walking the category tree\<close>

lemma finite_parent_edges: "finite (parent_edges cats)"
  unfolding parent_edges_def by (rule finite_set)

lemma parent_edges_iff:
  "(p, x) \<in> parent_edges cats \<longleftrightarrow> (\<exists>c\<in>set cats. parentId c = Some p \<and> cat_id c = x)"
  by (induction cats) (auto simp: parent_edges_def split: option.splits)

lemma find_SomeD: "find P xs = Some x \<Longrightarrow> x \<in> set xs \<and> P x"
  by (induction xs) (auto split: if_splits)

text \<open>
  On an acyclic list the loop of \<^verbatim>\<open>get_ancestor_ids\<close> returns: it appends a chain \<open>ch\<close> of
  proper ancestors to the accumulator. The chain lists no id twice, each of its ids is
  above the start in the parent graph, and the chain of each of its ids is part of it.
\<close>

lemma ancestors_loop_acyclic:
  assumes "acyclic_categories cats"
  shows "\<exists>ch. (\<forall>acc. ancestors_loop cats cur acc = Some (acc @ ch))
           \<and> distinct ch
           \<and> (\<forall>a\<in>set ch. (a, cur) \<in> (parent_edges cats)\<^sup>+)
           \<and> (\<forall>a\<in>set ch. \<exists>ch'. (\<forall>acc. ancestors_loop cats a acc = Some (acc @ ch'))
                                  \<and> set ch' \<subseteq> set ch)"
proof -
  have acyc: "acyclic (parent_edges cats)"
    using assms by (simp add: acyclic_categories_def)
  have "wf (parent_edges cats)"
    using finite_parent_edges acyc by (rule finite_acyclic_wf)
  then show ?thesis
  proof (induction cur rule: wf_induct_rule)
    case (less cur)
    let ?stop = "\<forall>acc. ancestors_loop cats cur acc = Some (acc @ [])"
    show ?case
    proof (cases "find (\<lambda>c. cat_id c = cur) cats")
      case None
      then have ?stop by (subst ancestors_loop.simps) simp
      then show ?thesis by (intro exI [of _ "[]"]) simp
    next
      case (Some c)
      show ?thesis
      proof (cases "parentId c")
        case None
        with Some have ?stop by (subst ancestors_loop.simps) simp
        then show ?thesis by (intro exI [of _ "[]"]) simp
      next
        case par: (Some p)
        show ?thesis
        proof (cases "p = []")
          case True
          with Some par have ?stop by (subst ancestors_loop.simps) simp
          then show ?thesis by (intro exI [of _ "[]"]) simp
        next
          case False
          have edge: "(p, cur) \<in> parent_edges cats"
            using find_SomeD [OF Some] par by (auto simp: parent_edges_iff)
          from less.IH [OF edge] obtain ch where
            run: "\<forall>acc. ancestors_loop cats p acc = Some (acc @ ch)"
            and dist: "distinct ch"
            and up: "\<forall>a\<in>set ch. (a, p) \<in> (parent_edges cats)\<^sup>+"
            and closed: "\<forall>a\<in>set ch. \<exists>ch'. (\<forall>acc. ancestors_loop cats a acc = Some (acc @ ch'))
                                  \<and> set ch' \<subseteq> set ch"
            by blast
          have step: "ancestors_loop cats cur acc = Some (acc @ p # ch)" for acc
            using Some par False run by (subst ancestors_loop.simps) simp
          have "p \<notin> set ch"
            using up acyc by (auto simp: acyclic_def)
          moreover have "\<forall>a\<in>set (p # ch). (a, cur) \<in> (parent_edges cats)\<^sup>+"
            using up edge by (auto intro: trancl_into_trancl)
          moreover have "\<forall>a\<in>set (p # ch). \<exists>ch'. (\<forall>acc. ancestors_loop cats a acc = Some (acc @ ch'))
                                  \<and> set ch' \<subseteq> set (p # ch)"
          proof
            fix a assume "a \<in> set (p # ch)"
            then consider "a = p" | "a \<in> set ch" by auto
            then show "\<exists>ch'. (\<forall>acc. ancestors_loop cats a acc = Some (acc @ ch'))
                                  \<and> set ch' \<subseteq> set (p # ch)"
            proof cases
              case 1
              with run show ?thesis by (intro exI [of _ ch]) auto
            next
              case 2
              with closed obtain ch' where
                "\<forall>acc. ancestors_loop cats a acc = Some (acc @ ch')" "set ch' \<subseteq> set ch"
                by blast
              then show ?thesis by (intro exI [of _ ch']) auto
            qed
          qed
          ultimately show ?thesis
            using step dist by (intro exI [of _ "p # ch"]) simp
        qed
      qed
    qed
  qed
qed

lemma get_ancestor_ids_loop:
  "get_ancestor_ids c cats = ancestors_loop cats c [c]"
  by (simp add: get_ancestor_ids_def ancestors_loop.simps)

lemma get_ancestor_ids_acyclic:
  assumes "acyclic_categories cats"
  shows "\<exists>chain. get_ancestor_ids c cats = Some chain
           \<and> c \<in> set chain \<and> distinct chain
           \<and> (\<forall>a\<in>set chain. (a, c) \<in> (parent_edges cats)\<^sup>*)
           \<and> (\<forall>a\<in>set chain. \<exists>chain'. get_ancestor_ids a cats = Some chain'
                                  \<and> set chain' \<subseteq> set chain)"
proof -
  from ancestors_loop_acyclic [OF assms, of c] obtain ch where
    run: "\<forall>acc. ancestors_loop cats c acc = Some (acc @ ch)"
    and dist: "distinct ch"
    and up: "\<forall>a\<in>set ch. (a, c) \<in> (parent_edges cats)\<^sup>+"
    and closed: "\<forall>a\<in>set ch. \<exists>ch'. (\<forall>acc. ancestors_loop cats a acc = Some (acc @ ch'))
                                  \<and> set ch' \<subseteq> set ch"
    by blast
  have acyc: "acyclic (parent_edges cats)"
    using assms by (simp add: acyclic_categories_def)
  have "c \<notin> set ch"
    using up acyc by (auto simp: acyclic_def)
  moreover have "\<exists>chain'. get_ancestor_ids a cats = Some chain' \<and> set chain' \<subseteq> set (c # ch)"
    if "a \<in> set (c # ch)" for a
  proof (cases "a = c")
    case True
    then show ?thesis using run by (auto simp: get_ancestor_ids_loop)
  next
    case False
    with that closed obtain ch' where
      "\<forall>acc. ancestors_loop cats a acc = Some (acc @ ch')" "set ch' \<subseteq> set ch"
      by auto
    with that False show ?thesis by (auto simp: get_ancestor_ids_loop)
  qed
  moreover have "\<forall>a\<in>set (c # ch). (a, c) \<in> (parent_edges cats)\<^sup>*"
    using up by auto
  ultimately show ?thesis
    using run dist by (intro exI [of _ "c # ch"]) (simp add: get_ancestor_ids_loop)
qed

text \<open>
  On an acyclic list \<^verbatim>\<open>get_descendant_ids\<close> returns, and the ids it returns are those
  below the root in the parent graph.
\<close>

lemma extend_each_all_Some:
  "\<forall>c\<in>set children. \<exists>d. rec (cat_id c) = Some d \<Longrightarrow>
   \<exists>r. extend_each rec children ids = Some r
      \<and> set r = set ids \<union> (\<Union>c\<in>set children. set (the (rec (cat_id c))))"
proof (induction children arbitrary: ids)
  case Nil
  show ?case by simp
next
  case (Cons c cs)
  then obtain d where d: "rec (cat_id c) = Some d" by auto
  from Cons.IH [of "ids @ d"] Cons.prems obtain r where
    "extend_each rec cs (ids @ d) = Some r"
    "set r = set (ids @ d) \<union> (\<Union>c\<in>set cs. set (the (rec (cat_id c))))"
    by auto
  with d show ?case by auto
qed

lemma trancl_image_unfold: "E\<^sup>+ `` {r} = E `` {r} \<union> (\<Union>y\<in>E `` {r}. E\<^sup>+ `` {y})"
  by (auto elim: converse_tranclE intro: trancl_into_trancl2)

lemma get_descendant_ids_acyclic:
  assumes "acyclic_categories cats"
  shows "\<exists>ds. get_descendant_ids root cats = Some ds
            \<and> set ds = (parent_edges cats)\<^sup>+ `` {root}"
proof -
  have "wf ((parent_edges cats)\<inverse>)"
    using finite_parent_edges assms unfolding acyclic_categories_def
    by (rule finite_acyclic_wf_converse)
  then show ?thesis
  proof (induction root rule: wf_induct_rule)
    case (less root)
    show ?case
    proof (cases "cats = []")
      case True
      then show ?thesis
        by (subst get_descendant_ids.simps) (simp add: parent_edges_def)
    next
      case False
      let ?children = "filter (\<lambda>c. parentId c = Some root) cats"
      let ?rec = "\<lambda>x. get_descendant_ids x cats"
      have sub: "\<exists>ds. ?rec (cat_id c) = Some ds
                   \<and> set ds = (parent_edges cats)\<^sup>+ `` {cat_id c}"
        if "c \<in> set ?children" for c
        using that by (intro less.IH) (auto simp: parent_edges_iff)
      then have "\<forall>c\<in>set ?children. \<exists>d. ?rec (cat_id c) = Some d" by blast
      from extend_each_all_Some [OF this, of "map cat_id ?children"] obtain r where
        r: "extend_each ?rec ?children (map cat_id ?children) = Some r"
        and set_r: "set r = set (map cat_id ?children)
                      \<union> (\<Union>c\<in>set ?children. set (the (?rec (cat_id c))))"
        by blast
      have direct: "set (map cat_id ?children) = parent_edges cats `` {root}"
        by (auto simp: parent_edges_iff)
      have each: "set (the (?rec (cat_id c))) = (parent_edges cats)\<^sup>+ `` {cat_id c}"
        if "c \<in> set ?children" for c
      proof -
        from sub [OF that] obtain ds where
          "?rec (cat_id c) = Some ds" "set ds = (parent_edges cats)\<^sup>+ `` {cat_id c}"
          by blast
        then show ?thesis by simp
      qed
      have "(\<Union>c\<in>set ?children. set (the (?rec (cat_id c))))
              = (\<Union>c\<in>set ?children. (parent_edges cats)\<^sup>+ `` {cat_id c})"
        by (intro SUP_cong refl each)
      also have "\<dots> = (\<Union>y\<in>parent_edges cats `` {root}. (parent_edges cats)\<^sup>+ `` {y})"
        unfolding direct [symmetric] by auto
      finally have "set r = (parent_edges cats)\<^sup>+ `` {root}"
        using set_r direct by (subst trancl_image_unfold) simp
      moreover have "get_descendant_ids root cats = Some r"
        using False r by (subst get_descendant_ids.simps) (simp add: Let_def)
      ultimately show ?thesis by blast
    qed
  qed
qed

subsection \<open>The example tree and the example cycle\<close>

lemma ex_categories_acyclic: "acyclic_categories ex_categories"
proof -
  have "acyclic (parent_edges ex_categories)"
    by (rule acyclicI_order [where f = "\<lambda>x. if x = ''A'' then (2::nat) else if x = ''B'' then 1 else 0"])
      (auto simp: parent_edges_def ex_categories_def)
  then show ?thesis by (simp add: acyclic_categories_def)
qed

lemma ex_descendants_C: "get_descendant_ids ''C'' ex_categories = Some []"
  by (subst get_descendant_ids.simps) (simp add: ex_categories_def)

lemma ex_descendants_B: "get_descendant_ids ''B'' ex_categories = Some [''C'']"
  using ex_descendants_C unfolding ex_categories_def
  by (subst get_descendant_ids.simps) simp

lemma ex_descendants_A: "get_descendant_ids ''A'' ex_categories = Some [''B'', ''C'']"
  using ex_descendants_B unfolding ex_categories_def
  by (subst get_descendant_ids.simps) simp

lemma ex_ancestors_C: "get_ancestor_ids ''C'' ex_categories = Some [''C'', ''B'', ''A'']"
  by (simp add: get_ancestor_ids_def ex_categories_def ancestors_loop.simps)

lemma ex_dangling_acyclic: "acyclic_categories ex_dangling"
proof -
  have "acyclic (parent_edges ex_dangling)"
    by (rule acyclicI_order [where f = "\<lambda>x. if x = ''gone'' then (1::nat) else 0"])
      (auto simp: parent_edges_def ex_dangling_def)
  then show ?thesis by (simp add: acyclic_categories_def)
qed

text \<open>
  On the cycle neither walk returns when started inside it: a run that returned would
  need an earlier run, started inside the cycle too, that returned.
\<close>

lemma ancestors_loop_cycle:
  assumes "ancestors_loop cats cur acc = Some y"
  shows "\<not> (cats = ex_cycle \<and> (cur = ''A'' \<or> cur = ''B''))"
proof (rule ancestors_loop.raw_induct
    [where P = "\<lambda>cats cur acc y. \<not> (cats = ex_cycle \<and> (cur = ''A'' \<or> cur = ''B''))",
      OF _ assms])
  fix loop cats cur acc y
  assume IH: "\<And>cats cur acc y. loop cats cur acc = Some y \<Longrightarrow>
                \<not> (cats = ex_cycle \<and> (cur = ''A'' \<or> cur = ''B''))"
    and body: "(case find (\<lambda>c. cat_id c = cur) cats of
                  None \<Rightarrow> Some acc
                | Some category \<Rightarrow>
                    (case parentId category of
                       None \<Rightarrow> Some acc
                     | Some p \<Rightarrow> if p = [] then Some acc else loop cats p (acc @ [p]))) = Some y"
  show "\<not> (cats = ex_cycle \<and> (cur = ''A'' \<or> cur = ''B''))"
  proof
    assume c: "cats = ex_cycle \<and> (cur = ''A'' \<or> cur = ''B'')"
    then consider "cur = ''A''" | "cur = ''B''" by blast
    then show False
    proof cases
      case 1
      with c body have "loop ex_cycle ''B'' (acc @ [''B'']) = Some y"
        by (simp add: ex_cycle_def)
      from IH [OF this] show False by simp
    next
      case 2
      with c body have "loop ex_cycle ''A'' (acc @ [''A'']) = Some y"
        by (simp add: ex_cycle_def)
      from IH [OF this] show False by simp
    qed
  qed
qed

lemma descendants_cycle:
  assumes "get_descendant_ids root cats = Some y"
  shows "\<not> (cats = ex_cycle \<and> (root = ''A'' \<or> root = ''B''))"
proof (rule get_descendant_ids.raw_induct
    [where P = "\<lambda>root cats y. \<not> (cats = ex_cycle \<and> (root = ''A'' \<or> root = ''B''))",
      OF _ assms])
  fix rec root cats y
  assume IH: "\<And>root cats y. rec root cats = Some y \<Longrightarrow>
                \<not> (cats = ex_cycle \<and> (root = ''A'' \<or> root = ''B''))"
    and body: "(if cats = [] then Some []
                else let children = filter (\<lambda>c. parentId c = Some root) cats
                     in extend_each (\<lambda>x. rec x cats) children (map cat_id children)) = Some y"
  show "\<not> (cats = ex_cycle \<and> (root = ''A'' \<or> root = ''B''))"
  proof
    assume c: "cats = ex_cycle \<and> (root = ''A'' \<or> root = ''B'')"
    then consider "root = ''A''" | "root = ''B''" by blast
    then show False
    proof cases
      case 1
      with c body obtain d where "rec ''B'' ex_cycle = Some d"
        by (auto simp: ex_cycle_def Option.bind_eq_Some_conv)
      from IH [OF this] show False by simp
    next
      case 2
      with c body obtain d where "rec ''A'' ex_cycle = Some d"
        by (auto simp: ex_cycle_def Option.bind_eq_Some_conv)
      from IH [OF this] show False by simp
    qed
  qed
qed

subsection \<open>Termination of the walks\<close>

text \<open>
  C2, as stated, claims that both walks terminate on every category list, cyclic ones
  included. The source has no guard against revisiting a category: started on a
  category of the two-element cycle, \<^verbatim>\<open>get_ancestor_ids\<close> never leaves its loop and
  \<^verbatim>\<open>get_descendant_ids\<close> recurses without end.
\<close>

theorem walks_cycle_counterexample:
  "get_ancestor_ids ''A'' ex_cycle = None \<and> get_descendant_ids ''A'' ex_cycle = None"
proof -
  have "ancestors_loop ex_cycle ''A'' [''A''] = None"
    using ancestors_loop_cycle [of ex_cycle "''A''" "[''A'']"] by (cases "ancestors_loop ex_cycle ''A'' [''A'']") auto
  moreover have "get_descendant_ids ''A'' ex_cycle = None"
    using descendants_cycle [of "''A''" ex_cycle] by (cases "get_descendant_ids ''A'' ex_cycle") auto
  ultimately show ?thesis
    by (simp add: get_ancestor_ids_loop)
qed

text \<open>
  C2, amended. On every category list whose parent links are acyclic, including lists
  where a \<^verbatim>\<open>parentId\<close> names a missing category, both walks return, and the ancestor
  chain holds no id twice.
\<close>

theorem walks_terminate_when_acyclic:
  assumes "acyclic_categories categories"
  shows "(\<exists>chain. get_ancestor_ids c categories = Some chain \<and> distinct chain)
         \<and> (\<exists>ds. get_descendant_ids c categories = Some ds)"
  using get_ancestor_ids_acyclic [OF assms, of c] get_descendant_ids_acyclic [OF assms, of c]
  by blast

theorem walks_terminate_when_acyclic_witness:
  "acyclic_categories ex_categories
   \<and> (\<exists>chain. get_ancestor_ids ''C'' ex_categories = Some chain \<and> distinct chain)
   \<and> (\<exists>ds. get_descendant_ids ''C'' ex_categories = Some ds)
   \<and> acyclic_categories ex_dangling
   \<and> (\<exists>chain. get_ancestor_ids ''X'' ex_dangling = Some chain \<and> distinct chain)
   \<and> (\<exists>ds. get_descendant_ids ''X'' ex_dangling = Some ds)"
  using walks_terminate_when_acyclic [OF ex_categories_acyclic, of "''C''"]
    walks_terminate_when_acyclic [OF ex_dangling_acyclic, of "''X''"]
    ex_categories_acyclic ex_dangling_acyclic
  by simp

section \<open>Expanding ids with their ancestors\<close>

lemma expand_loop_acyclic:
  assumes "acyclic_categories cats"
  shows "\<exists>e. expand_loop cats ids acc = Some e
           \<and> set e = set acc \<union> (\<Union>i\<in>set ids. set (the (get_ancestor_ids i cats)))"
proof (induction ids arbitrary: acc)
  case Nil
  show ?case by simp
next
  case (Cons i rest)
  from get_ancestor_ids_acyclic [OF assms, of i] obtain chain where
    chain: "get_ancestor_ids i cats = Some chain" by blast
  from Cons.IH [of "acc @ chain"] obtain e where
    "expand_loop cats rest (acc @ chain) = Some e"
    "set e = set (acc @ chain) \<union> (\<Union>i\<in>set rest. set (the (get_ancestor_ids i cats)))"
    by blast
  with chain show ?case by auto
qed

lemma expand_category_ids_acyclic:
  assumes "acyclic_categories cats"
  shows "\<exists>e. expand_category_ids ids cats = Some e
           \<and> set e = (\<Union>i\<in>set ids. set (the (get_ancestor_ids i cats)))"
  using expand_loop_acyclic [OF assms, of ids "[]"]
  by (auto simp: expand_category_ids_def list_of_set_def)

text \<open>
  C8. On an acyclic category list, expanding any list of ids (known to the category list
  or not) and expanding the result again gives the same set of ids.
\<close>

theorem expand_category_ids_idempotent:
  assumes "acyclic_categories categories"
  shows "\<exists>once twice. expand_category_ids S categories = Some once
           \<and> expand_category_ids once categories = Some twice
           \<and> set twice = set once"
proof -
  let ?A = "\<lambda>i. set (the (get_ancestor_ids i categories))"
  from expand_category_ids_acyclic [OF assms, of S] obtain once where
    once: "expand_category_ids S categories = Some once" "set once = (\<Union>i\<in>set S. ?A i)"
    by blast
  from expand_category_ids_acyclic [OF assms, of once] obtain twice where
    twice: "expand_category_ids once categories = Some twice"
      "set twice = (\<Union>i\<in>set once. ?A i)"
    by blast
  have self: "a \<in> ?A a" for a
    using get_ancestor_ids_acyclic [OF assms, of a] by auto
  have closed: "?A a \<subseteq> ?A i" if "a \<in> ?A i" for a i
  proof -
    from get_ancestor_ids_acyclic [OF assms, of i] obtain chain where
      c: "get_ancestor_ids i categories = Some chain"
      and cl: "\<forall>a\<in>set chain. \<exists>chain'. get_ancestor_ids a categories = Some chain'
                                  \<and> set chain' \<subseteq> set chain"
      by blast
    from that c have "a \<in> set chain" by simp
    with cl obtain chain' where
      "get_ancestor_ids a categories = Some chain'" "set chain' \<subseteq> set chain" by blast
    with c show ?thesis by simp
  qed
  have "set twice = set once"
  proof
    show "set twice \<subseteq> set once"
      unfolding twice(2) once(2) using closed by blast
    show "set once \<subseteq> set twice"
      unfolding twice(2) using self by blast
  qed
  with once twice show ?thesis by blast
qed

theorem expand_category_ids_idempotent_witness:
  "acyclic_categories ex_categories
   \<and> (\<exists>once twice. expand_category_ids [''C'', ''unknown''] ex_categories = Some once
         \<and> expand_category_ids once ex_categories = Some twice
         \<and> set twice = set once)"
  using expand_category_ids_idempotent [OF ex_categories_acyclic, of "[''C'', ''unknown'']"]
    ex_categories_acyclic
  by simp

section \<open>The category filter\<close>

lemma matches_all_acyclic:
  assumes "acyclic_categories cats"
  shows "matches_all cats ics sel =
           Some (\<forall>f\<in>set sel. \<exists>cid\<in>set ics. cid \<in> {f} \<union> set (the (get_descendant_ids f cats)))"
proof (induction sel)
  case Nil
  show ?case by simp
next
  case (Cons f rest)
  from get_descendant_ids_acyclic [OF assms, of f] obtain ds where
    "get_descendant_ids f cats = Some ds" by blast
  with Cons.IH show ?case
    by (auto simp: list_ex_iff)
qed

lemma category_filter_acyclic:
  assumes "acyclic_categories cats"
  shows "category_filter cats sel items =
           Some (filter (\<lambda>it. get_categoryIds it \<noteq> [] \<and>
                   (\<forall>f\<in>set sel. \<exists>cid\<in>set (get_categoryIds it).
                        cid \<in> {f} \<union> set (the (get_descendant_ids f cats)))) items)"
  by (induction items) (simp_all add: matches_all_acyclic [OF assms] Let_def)

text \<open>
  C6. On an acyclic category list the descendants that \<^verbatim>\<open>get_descendant_ids\<close> returns for
  a filter id \<open>f\<close> are exactly the ids below \<open>f\<close> in the parent graph, at any depth. With
  a non-empty list of filter ids, \<^verbatim>\<open>filter_items\<close> without a search query keeps exactly
  the items that have, for every filter id \<open>f\<close>, a category that is \<open>f\<close> or lies below \<open>f\<close>;
  with a search query, the text filter runs on exactly those items; and an item without
  categories is never kept.
\<close>

theorem filter_items_category_filter:
  assumes "acyclic_categories categories" and "selected \<noteq> []"
  shows "(\<forall>f. \<exists>ds. get_descendant_ids f categories = Some ds
                \<and> set ds = (parent_edges categories)\<^sup>+ `` {f})
         \<and> filter_items lower isspace items categories (Some selected) None =
           Some (filter (\<lambda>it. \<forall>f\<in>set selected. \<exists>cid\<in>set (get_categoryIds it).
                     cid \<in> {f} \<union> (parent_edges categories)\<^sup>+ `` {f}) items)
         \<and> filter_items lower isspace items categories (Some selected) query =
             filter_items lower isspace
               (filter (\<lambda>it. \<forall>f\<in>set selected. \<exists>cid\<in>set (get_categoryIds it).
                     cid \<in> {f} \<union> (parent_edges categories)\<^sup>+ `` {f}) items)
               categories None query
         \<and> (\<forall>it\<in>set items. get_categoryIds it = [] \<longrightarrow>
               (\<forall>kept. filter_items lower isspace items categories (Some selected) query
                    = Some kept \<longrightarrow> it \<notin> set kept))"
proof -
  let ?P = "\<lambda>it. \<forall>f\<in>set selected. \<exists>cid\<in>set (get_categoryIds it).
                     cid \<in> {f} \<union> (parent_edges categories)\<^sup>+ `` {f}"
  let ?Q = "\<lambda>it. get_categoryIds it \<noteq> [] \<and>
                   (\<forall>f\<in>set selected. \<exists>cid\<in>set (get_categoryIds it).
                        cid \<in> {f} \<union> set (the (get_descendant_ids f categories)))"
  have below: "\<exists>ds. get_descendant_ids f categories = Some ds
                 \<and> set ds = (parent_edges categories)\<^sup>+ `` {f}" for f
    by (rule get_descendant_ids_acyclic [OF assms(1)])
  have the_below: "set (the (get_descendant_ids f categories))
                     = (parent_edges categories)\<^sup>+ `` {f}" for f
  proof -
    from below [of f] obtain ds where
      "get_descendant_ids f categories = Some ds"
      "set ds = (parent_edges categories)\<^sup>+ `` {f}"
      by blast
    then show ?thesis by simp
  qed
  have same: "?P it = ?Q it" for it
  proof -
    have "?Q it = (get_categoryIds it \<noteq> [] \<and> ?P it)"
      unfolding the_below ..
    also have "\<dots> = ?P it"
      using assms(2) by (cases selected) auto
    finally show ?thesis ..
  qed
  have cf: "category_filter categories selected items = Some (filter ?P items)"
    unfolding category_filter_acyclic [OF assms(1)] same [symmetric] ..
  have kept: "filter_items lower isspace items categories (Some selected) None
                = Some (filter ?P items)"
    using assms(2) by (simp add: filter_items_def cf)
  have staged: "filter_items lower isspace items categories (Some selected) query =
             filter_items lower isspace (filter ?P items) categories None query"
    using assms(2) by (simp add: filter_items_def cf)
  have untagged: "it \<notin> set kept"
    if "it \<in> set items" "get_categoryIds it = []"
      "filter_items lower isspace items categories (Some selected) query = Some kept"
    for it kept
  proof -
    from that(2) assms(2) have "\<not> ?P it" by (cases selected) auto
    moreover from that(3) have "set kept \<subseteq> set (filter ?P items)"
      unfolding staged by (auto simp: filter_items_def split: option.splits if_splits)
    ultimately show ?thesis by auto
  qed
  from below kept staged untagged show ?thesis by blast
qed

theorem filter_items_category_filter_witness:
  "acyclic_categories ex_categories \<and> [''B''] \<noteq> [] \<and> [''A''] \<noteq> []
   \<and> filter_items ex_lower ex_isspace [item_c, item_a, item_untagged] ex_categories
         (Some [''B'']) None
       = Some [item_c]
   \<and> filter_items ex_lower ex_isspace [item_c, item_untagged] ex_categories
         (Some [''A'']) None
       = Some [item_c]
   \<and> (parent_edges ex_categories)\<^sup>+ `` {''A''} = {''B'', ''C''}"
proof -
  note on_B = filter_items_category_filter [OF ex_categories_acyclic,
      where selected = "[''B'']" and items = "[item_c, item_a, item_untagged]"
        and query = None and lower = ex_lower and isspace = ex_isspace]
  note on_A = filter_items_category_filter [OF ex_categories_acyclic,
      where selected = "[''A'']" and items = "[item_c, item_untagged]"
        and query = None and lower = ex_lower and isspace = ex_isspace]
  have below_B: "(parent_edges ex_categories)\<^sup>+ `` {''B''} = {''C''}"
  proof -
    from on_B obtain ds where
      ds: "get_descendant_ids ''B'' ex_categories = Some ds"
      and below: "set ds = (parent_edges ex_categories)\<^sup>+ `` {''B''}"
      by blast
    from ds have "ds = [''C'']" by (simp add: ex_descendants_B)
    with below [symmetric] show ?thesis by simp
  qed
  have below_A: "(parent_edges ex_categories)\<^sup>+ `` {''A''} = {''B'', ''C''}"
  proof -
    from on_A obtain ds where
      ds: "get_descendant_ids ''A'' ex_categories = Some ds"
      and below: "set ds = (parent_edges ex_categories)\<^sup>+ `` {''A''}"
      by blast
    from ds have "ds = [''B'', ''C'']" by (simp add: ex_descendants_A)
    with below [symmetric] show ?thesis by simp
  qed
  have "filter_items ex_lower ex_isspace [item_c, item_a, item_untagged] ex_categories
         (Some [''B'']) None = Some [item_c]"
    using on_B
    by (simp add: below_B item_c_def item_a_def item_untagged_def get_categoryIds_def)
  moreover have "filter_items ex_lower ex_isspace [item_c, item_untagged] ex_categories
         (Some [''A'']) None = Some [item_c]"
    using on_A
    by (simp add: below_A item_c_def item_untagged_def get_categoryIds_def)
  ultimately show ?thesis
    using ex_categories_acyclic below_A by simp
qed

section \<open>Validating an item name\<close>

text \<open>
  \<^verbatim>\<open>not item_name or not item_name.strip()\<close> holds exactly when every character of the
  name is whitespace.
\<close>

lemma strip_empty_iff: "strip isspace s = [] \<longleftrightarrow> list_all isspace s"
proof -
  have "dropWhile isspace (rev (dropWhile isspace s)) = [] \<longleftrightarrow> dropWhile isspace s = []"
  proof (cases "dropWhile isspace s")
    case Nil
    then show ?thesis by (simp del: dropWhile_eq_Nil_conv)
  next
    case (Cons x xs)
    then have "\<not> isspace x" using hd_dropWhile [of isspace s] by auto
    with Cons show ?thesis by auto
  qed
  then show ?thesis
    by (auto simp: strip_def list_all_iff)
qed

text \<open>
  The loop of \<^verbatim>\<open>validate_item_name\<close> in closed form: it returns the duplicate message
  exactly when some item that is not skipped collides with the name.
\<close>

lemma validate_loop_result:
  "validate_loop name ty ex items =
     (if \<exists>it\<in>set items.
            \<not> (\<exists>e. ex = Some e \<and> e \<noteq> [] \<and> item_id it = e)
            \<and> (if ty = ''text'' \<or> ty = ''url''
               then (item_type it = Some ''text'' \<or> item_type it = Some ''url'')
                    \<and> content it = Some name
               else item_type it = Some ty \<and> fileName it = Some name)
      then Some (if ty = ''text'' \<or> ty = ''url'' then DuplicateEntry name
                 else DuplicateFile name)
      else None)"
proof -
  define skipped where "skipped = (\<lambda>it::item. \<exists>e. ex = Some e \<and> e \<noteq> [] \<and> item_id it = e)"
  define collides where "collides = (\<lambda>it::item. if ty = ''text'' \<or> ty = ''url''
               then (item_type it = Some ''text'' \<or> item_type it = Some ''url'')
                    \<and> content it = Some name
               else item_type it = Some ty \<and> fileName it = Some name)"
  define msg where "msg = (if ty = ''text'' \<or> ty = ''url'' then DuplicateEntry name
                 else DuplicateFile name)"
  have step: "validate_loop name ty ex (it # rest) =
                (if skipped it then validate_loop name ty ex rest
                 else if collides it then Some msg
                 else validate_loop name ty ex rest)" for it rest
    unfolding skipped_def collides_def msg_def
    by (cases ex) simp_all
  have "validate_loop name ty ex items =
          (if \<exists>it\<in>set items. \<not> skipped it \<and> collides it then Some msg else None)"
    by (induction items) (simp_all add: step del: validate_loop.simps(2))
  then show ?thesis
    unfolding skipped_def collides_def msg_def .
qed

text \<open>
  C7, as stated, has the scan skip the item whose id equals \<open>excludeId\<close>, for every
  \<open>excludeId\<close>, so that a call that collided succeeds once \<open>excludeId\<close> is the colliding
  item's id. The source skips only under \<^verbatim>\<open>exclude_id and ...\<close>: an \<open>excludeId\<close> that is the
  empty string excludes nothing, and the item with the empty id still collides.
\<close>

theorem validate_item_name_empty_exclude_counterexample:
  "item_id item_blank_id = []
   \<and> validate_item_name ex_isspace [item_blank_id] ''report.pdf'' ''file'' None
       = Some (DuplicateFile ''report.pdf'')
   \<and> validate_item_name ex_isspace [item_blank_id] ''report.pdf'' ''file''
         (Some (item_id item_blank_id))
       = Some (DuplicateFile ''report.pdf'')"
  by (simp add: validate_item_name_def item_blank_id_def strip_def ex_isspace_def)

text \<open>
  C7, amended. A blank name gives the \<open>EmptyName\<close> message. For any other name the scan
  skips the items whose id equals a given, non-empty \<open>excludeId\<close>; for the types \<open>text\<close> and
  \<open>url\<close> it reports a duplicate exactly when an item that is not skipped has type \<open>text\<close>
  or \<open>url\<close> and the name as its content, for any other type exactly when an item that
  is not skipped has the same type and the name as its file name; otherwise it returns
  no message. When every colliding item has the non-empty id \<open>e\<close>, the call with
  \<open>excludeId = e\<close> returns no message.
\<close>

theorem validate_item_name_spec:
  "(list_all isspace name \<longrightarrow>
      validate_item_name isspace items name ty ex = Some NameEmpty
      \<and> kind_of NameEmpty = EmptyName)
   \<and> (\<not> list_all isspace name \<longrightarrow>
       (let skipped = (\<lambda>it. \<exists>e. ex = Some e \<and> e \<noteq> [] \<and> item_id it = e);
            collides = (\<lambda>it. if ty = ''text'' \<or> ty = ''url''
                         then (item_type it = Some ''text'' \<or> item_type it = Some ''url'')
                              \<and> content it = Some name
                         else item_type it = Some ty \<and> fileName it = Some name)
        in (if \<exists>it\<in>set items. \<not> skipped it \<and> collides it
            then validate_item_name isspace items name ty ex =
                   Some (if ty = ''text'' \<or> ty = ''url'' then DuplicateEntry name
                         else DuplicateFile name)
                 \<and> kind_of (DuplicateEntry name) = DuplicateName
                 \<and> kind_of (DuplicateFile name) = DuplicateName
            else validate_item_name isspace items name ty ex = None)
           \<and> (\<forall>e. e \<noteq> [] \<and> (\<forall>it\<in>set items. collides it \<longrightarrow> item_id it = e) \<longrightarrow>
                  validate_item_name isspace items name ty (Some e) = None)))"
proof -
  have blank: "(name = [] \<or> strip isspace name = []) = list_all isspace name"
    by (auto simp: strip_empty_iff)
  show ?thesis
    unfolding validate_item_name_def blank validate_loop_result Let_def
    by auto
qed

theorem validate_item_name_spec_witness:
  "validate_item_name ex_isspace [item_a] ''  '' ''file'' None = Some NameEmpty
   \<and> validate_item_name ex_isspace [item_abc, item_a] ''report.pdf'' ''file'' None
       = Some (DuplicateFile ''report.pdf'')
   \<and> validate_item_name ex_isspace [item_abc, item_a] ''report.pdf'' ''file'' (Some ''i2'')
       = None
   \<and> validate_item_name ex_isspace [item_abc, item_a] ''note'' ''url'' None
       = Some (DuplicateEntry ''note'')
   \<and> validate_item_name ex_isspace [item_abc, item_a] ''note'' ''file'' None = None"
  using validate_item_name_spec [of ex_isspace "''  ''" "[item_a]" "''file''" None]
    validate_item_name_spec [of ex_isspace "''report.pdf''" "[item_abc, item_a]" "''file''" None]
    validate_item_name_spec [of ex_isspace "''report.pdf''" "[item_abc, item_a]" "''file''" "Some ''i2''"]
    validate_item_name_spec [of ex_isspace "''note''" "[item_abc, item_a]" "''url''" None]
    validate_item_name_spec [of ex_isspace "''note''" "[item_abc, item_a]" "''file''" None]
  by (simp add: ex_isspace_def item_abc_def item_a_def Let_def)

section \<open>Order of the filtered items\<close>

lemma category_filter_subseq:
  "category_filter cats sel items = Some kept \<Longrightarrow> subseq kept items"
proof (induction items arbitrary: kept)
  case Nil
  then show ?case by simp
next
  case (Cons it rest)
  show ?case
  proof (cases "get_categoryIds it = []")
    case True
    with Cons.prems have "category_filter cats sel rest = Some kept" by simp
    from Cons.IH [OF this] show ?thesis by auto
  next
    case False
    with Cons.prems obtain m filtered where
      rest: "category_filter cats sel rest = Some filtered"
      and kept: "kept = (if m then it # filtered else filtered)"
      by (auto simp: Let_def Option.bind_eq_Some_conv)
    from Cons.IH [OF rest] show ?thesis
      unfolding kept by auto
  qed
qed

text \<open>
  C10. Whatever filters are active, a list returned by \<^verbatim>\<open>filter_items\<close> is a subsequence
  of the input list: its items occur in the input, in the input's order. On an acyclic
  category list \<^verbatim>\<open>filter_items\<close> does return.
\<close>

theorem filter_items_subseq:
  "(\<forall>kept. filter_items lower isspace items categories selected query = Some kept \<longrightarrow>
       subseq kept items \<and> set kept \<subseteq> set items)
   \<and> (acyclic_categories categories \<longrightarrow>
        (\<exists>kept. filter_items lower isspace items categories selected query = Some kept))"
proof -
  have sub: "subseq kept items"
    if "filter_items lower isspace items categories selected query = Some kept" for kept
  proof -
    from that obtain result where
      result: "(case selected of
                  Some sel \<Rightarrow> if sel \<noteq> [] then category_filter categories sel items
                              else Some items
                | None \<Rightarrow> Some items) = Some result"
      and kept: "kept = (case query of
                  Some q \<Rightarrow> if q \<noteq> [] \<and> strip isspace q \<noteq> []
                            then filter (text_match lower (lower q)) result else result
                | None \<Rightarrow> result)"
      by (auto simp: filter_items_def Option.bind_eq_Some_conv)
    have "subseq result items"
      using result by (auto split: option.splits if_splits dest: category_filter_subseq)
    moreover have "subseq kept result"
      unfolding kept by (auto split: option.splits)
    ultimately show ?thesis by (rule subseq_order.trans [rotated])
  qed
  moreover have "set kept \<subseteq> set items" if "subseq kept items" for kept
    using that by (auto dest: list_emb_set)
  moreover have "\<exists>kept. filter_items lower isspace items categories selected query = Some kept"
    if "acyclic_categories categories"
    by (auto simp: filter_items_def category_filter_acyclic [OF that] split: option.splits)
  ultimately show ?thesis by blast
qed

theorem filter_items_subseq_witness:
  "filter_items ex_lower ex_isspace [item_abc, item_a, item_c] ex_categories
       (Some [''A'']) (Some ''REPORT'') = Some [item_a]
   \<and> subseq [item_a] [item_abc, item_a, item_c]
   \<and> acyclic_categories ex_categories"
proof -
  have run: "filter_items ex_lower ex_isspace [item_abc, item_a, item_c] ex_categories
       (Some [''A'']) (Some ''REPORT'') = Some [item_a]"
    by (simp add: filter_items_def ex_descendants_A item_abc_def item_a_def item_c_def
        get_categoryIds_def text_match_def or_empty_def ex_lower_def strip_def ex_isspace_def
        sublist_Cons_right)
  with filter_items_subseq [of ex_lower ex_isspace "[item_abc, item_a, item_c]" ex_categories
      "Some [''A'']" "Some ''REPORT''"] ex_categories_acyclic
  show ?thesis by simp
qed

section \<open>Toggling a category\<close>

text \<open>
  Once the descendants and the ancestor chain of the category are known, the result of
  \<^verbatim>\<open>toggle_category_association\<close> is a map over the items, governed by the one decision
  \<open>all_have\<close>.
\<close>

lemma toggle_closed_form:
  assumes "get_descendant_ids c cats = Some ds" and "get_ancestor_ids c cats = Some chain"
    and "all_have \<longleftrightarrow>
           (\<forall>it\<in>set items. item_id it \<in> set item_ids \<longrightarrow> c \<in> set (get_categoryIds it))"
  shows "toggle_category_association items item_ids c cats =
     Some (map (\<lambda>it.
        if item_id it \<in> set item_ids
        then it\<lparr>categoryIds := Some (list_of_set
               (if all_have
                then filter (\<lambda>x. x \<notin> set (if ds \<noteq> [] then c # ds else [c])) (get_categoryIds it)
                else get_categoryIds it @ (if ds \<noteq> [] then [c] else chain)))\<rparr>
        else it) items)"
proof -
  have decision: "list_all (\<lambda>it. c \<in> set (get_categoryIds it))
                    (filter (\<lambda>it. item_id it \<in> set item_ids) items) = all_have"
    by (auto simp: list_all_iff assms(3))
  show ?thesis
    unfolding toggle_category_association_def Let_def decision
    by (cases all_have; cases "ds = []") (simp_all add: assms(1,2))
qed

lemma get_categoryIds_update [simp]:
  "get_categoryIds (it\<lparr>categoryIds := Some cs\<rparr>) = cs"
  by (simp add: get_categoryIds_def)

text \<open>
  C1. On an acyclic category list \<^verbatim>\<open>toggle_category_association\<close> returns a list as long
  as the input. An item whose id is not selected is returned unchanged. Every selected
  item gets a new list of category ids, whose set is decided by one test for the whole
  selection: when every selected item holds \<open>c\<close>, it is the item's set without \<open>c\<close> and
  the descendants of \<open>c\<close> (without \<open>c\<close> alone when \<open>c\<close> has no descendants); otherwise it is
  the item's set with \<open>c\<close> (with the whole ancestor chain of \<open>c\<close> when \<open>c\<close> has no
  descendants). No proper ancestor of \<open>c\<close> is among its descendants, so the remove branch
  leaves the ancestors in place.
\<close>

theorem toggle_category_association_spec:
  assumes "acyclic_categories categories"
  shows "\<exists>ds chain result.
     get_descendant_ids c categories = Some ds
     \<and> get_ancestor_ids c categories = Some chain
     \<and> toggle_category_association items item_ids c categories = Some result
     \<and> length result = length items
     \<and> (\<forall>i<length items.
          if item_id (items ! i) \<in> set item_ids
          then \<exists>new_ids. result ! i = (items ! i)\<lparr>categoryIds := Some new_ids\<rparr>
                 \<and> set new_ids =
                   (if \<forall>it\<in>set items. item_id it \<in> set item_ids \<longrightarrow> c \<in> set (get_categoryIds it)
                    then (if ds \<noteq> [] then set (get_categoryIds (items ! i)) - ({c} \<union> set ds)
                          else set (get_categoryIds (items ! i)) - {c})
                    else (if ds \<noteq> [] then set (get_categoryIds (items ! i)) \<union> {c}
                          else set (get_categoryIds (items ! i)) \<union> set chain))
          else result ! i = items ! i)
     \<and> (\<forall>a\<in>set chain. a \<noteq> c \<longrightarrow> a \<notin> set ds)"
proof -
  from get_descendant_ids_acyclic [OF assms, of c] obtain ds where
    ds: "get_descendant_ids c categories = Some ds"
    and below: "set ds = (parent_edges categories)\<^sup>+ `` {c}"
    by blast
  from get_ancestor_ids_acyclic [OF assms, of c] obtain chain where
    chain: "get_ancestor_ids c categories = Some chain"
    and above: "\<forall>a\<in>set chain. (a, c) \<in> (parent_edges categories)\<^sup>*"
    by blast
  have acyc: "acyclic (parent_edges categories)"
    using assms by (simp add: acyclic_categories_def)
  have apart: "a \<notin> set ds" if "a \<in> set chain" "a \<noteq> c" for a
  proof
    assume "a \<in> set ds"
    then have "(c, a) \<in> (parent_edges categories)\<^sup>+" by (simp add: below)
    moreover from that above have "(a, c) \<in> (parent_edges categories)\<^sup>+"
      by (auto dest: rtranclD)
    ultimately have "(c, c) \<in> (parent_edges categories)\<^sup>+" by (rule trancl_trans)
    with acyc show False by (simp add: acyclic_def)
  qed
  let ?result = "map (\<lambda>it.
        if item_id it \<in> set item_ids
        then it\<lparr>categoryIds := Some (list_of_set
               (if \<forall>it\<in>set items. item_id it \<in> set item_ids \<longrightarrow> c \<in> set (get_categoryIds it)
                then filter (\<lambda>x. x \<notin> set (if ds \<noteq> [] then c # ds else [c])) (get_categoryIds it)
                else get_categoryIds it @ (if ds \<noteq> [] then [c] else chain)))\<rparr>
        else it) items"
  have run: "toggle_category_association items item_ids c categories = Some ?result"
    by (rule toggle_closed_form [OF ds chain refl])
  have each: "if item_id (items ! i) \<in> set item_ids
          then \<exists>new_ids. ?result ! i = (items ! i)\<lparr>categoryIds := Some new_ids\<rparr>
                 \<and> set new_ids =
                   (if \<forall>it\<in>set items. item_id it \<in> set item_ids \<longrightarrow> c \<in> set (get_categoryIds it)
                    then (if ds \<noteq> [] then set (get_categoryIds (items ! i)) - ({c} \<union> set ds)
                          else set (get_categoryIds (items ! i)) - {c})
                    else (if ds \<noteq> [] then set (get_categoryIds (items ! i)) \<union> {c}
                          else set (get_categoryIds (items ! i)) \<union> set chain))
          else ?result ! i = items ! i" if "i < length items" for i
    using that by (auto simp: list_of_set_def)
  show ?thesis
  proof (intro exI conjI)
    show "get_descendant_ids c categories = Some ds" by (rule ds)
    show "get_ancestor_ids c categories = Some chain" by (rule chain)
    show "toggle_category_association items item_ids c categories = Some ?result"
      by (rule run)
    show "length ?result = length items" by simp
    show "\<forall>a\<in>set chain. a \<noteq> c \<longrightarrow> a \<notin> set ds" using apart by blast
  qed (use each in blast)
qed

theorem toggle_category_association_spec_witness:
  "acyclic_categories ex_categories
   \<and> (\<exists>result. toggle_category_association [item_abc, item_c] [''i1''] ''A'' ex_categories
                   = Some result
          \<and> length result = 2
          \<and> result ! 0 = item_abc\<lparr>categoryIds := Some []\<rparr>
          \<and> result ! 1 = item_c)
   \<and> (\<exists>result new_ids. toggle_category_association [item_a] [''i2''] ''C'' ex_categories
                   = Some result
          \<and> result ! 0 = item_a\<lparr>categoryIds := Some new_ids\<rparr>
          \<and> set new_ids = {''A'', ''B'', ''C''})"
proof -
  from toggle_category_association_spec [OF ex_categories_acyclic,
      of "''A''" "[item_abc, item_c]" "[''i1'']"]
  obtain ds chain result where
    ds: "get_descendant_ids ''A'' ex_categories = Some ds"
    and run: "toggle_category_association [item_abc, item_c] [''i1''] ''A'' ex_categories
                = Some result"
    and len: "length result = length [item_abc, item_c]"
    and each: "\<forall>i<length [item_abc, item_c].
          if item_id ([item_abc, item_c] ! i) \<in> set [''i1'']
          then \<exists>new_ids. result ! i = ([item_abc, item_c] ! i)\<lparr>categoryIds := Some new_ids\<rparr>
                 \<and> set new_ids =
                   (if \<forall>it\<in>set [item_abc, item_c]. item_id it \<in> set [''i1'']
                          \<longrightarrow> ''A'' \<in> set (get_categoryIds it)
                    then (if ds \<noteq> []
                          then set (get_categoryIds ([item_abc, item_c] ! i)) - ({''A''} \<union> set ds)
                          else set (get_categoryIds ([item_abc, item_c] ! i)) - {''A''})
                    else (if ds \<noteq> []
                          then set (get_categoryIds ([item_abc, item_c] ! i)) \<union> {''A''}
                          else set (get_categoryIds ([item_abc, item_c] ! i)) \<union> set chain))
          else result ! i = [item_abc, item_c] ! i"
    by blast
  from ds have ds_val: "ds = [''B'', ''C'']" by (simp add: ex_descendants_A)
  from each have "result ! 0 = item_abc\<lparr>categoryIds := Some []\<rparr>"
    by (auto simp: ds_val item_abc_def item_c_def get_categoryIds_def dest!: spec [of _ 0])
  moreover from each have "result ! 1 = item_c"
    by (auto simp: ds_val item_abc_def item_c_def get_categoryIds_def dest!: spec [of _ 1])
  ultimately have first: "\<exists>result. toggle_category_association [item_abc, item_c] [''i1''] ''A''
                   ex_categories = Some result
          \<and> length result = 2
          \<and> result ! 0 = item_abc\<lparr>categoryIds := Some []\<rparr>
          \<and> result ! 1 = item_c"
    using run len by simp
  from toggle_category_association_spec [OF ex_categories_acyclic,
      of "''C''" "[item_a]" "[''i2'']"]
  obtain ds' chain' result' where
    ds': "get_descendant_ids ''C'' ex_categories = Some ds'"
    and chain': "get_ancestor_ids ''C'' ex_categories = Some chain'"
    and run': "toggle_category_association [item_a] [''i2''] ''C'' ex_categories = Some result'"
    and each': "\<forall>i<length [item_a].
          if item_id ([item_a] ! i) \<in> set [''i2'']
          then \<exists>new_ids. result' ! i = ([item_a] ! i)\<lparr>categoryIds := Some new_ids\<rparr>
                 \<and> set new_ids =
                   (if \<forall>it\<in>set [item_a]. item_id it \<in> set [''i2'']
                          \<longrightarrow> ''C'' \<in> set (get_categoryIds it)
                    then (if ds' \<noteq> []
                          then set (get_categoryIds ([item_a] ! i)) - ({''C''} \<union> set ds')
                          else set (get_categoryIds ([item_a] ! i)) - {''C''})
                    else (if ds' \<noteq> []
                          then set (get_categoryIds ([item_a] ! i)) \<union> {''C''}
                          else set (get_categoryIds ([item_a] ! i)) \<union> set chain'))
          else result' ! i = [item_a] ! i"
    by blast
  from ds' chain' have vals: "ds' = []" "chain' = [''C'', ''B'', ''A'']"
    by (simp_all add: ex_descendants_C ex_ancestors_C)
  from each' have "\<exists>new_ids. result' ! 0 = item_a\<lparr>categoryIds := Some new_ids\<rparr>
          \<and> set new_ids = {''A'', ''B'', ''C''}"
    by (auto simp: vals item_a_def get_categoryIds_def)
  with run' have second: "\<exists>result new_ids.
          toggle_category_association [item_a] [''i2''] ''C'' ex_categories = Some result
          \<and> result ! 0 = item_a\<lparr>categoryIds := Some new_ids\<rparr>
          \<and> set new_ids = {''A'', ''B'', ''C''}"
    by blast
  from ex_categories_acyclic first second show ?thesis by blast
qed

subsection \<open>Toggling twice\<close>

text \<open>
  C3, as stated, has two toggles in succession restore every selected item whenever the
  category has no children. The leaf \<open>C\<close> of the example tree has none, and yet: an item
  tagged \<open>[C]\<close> alone comes back with the ancestors \<open>B\<close> and \<open>A\<close> added; and of two selected
  items of which only one holds \<open>C\<close>, that one comes back without \<open>C\<close>. (The lists are
  written in the enumeration order of \<^const>\<open>list_of_set\<close>; what differs is their sets.)
\<close>

theorem toggle_twice_counterexample:
  "get_descendant_ids ''C'' ex_categories = Some []
   \<and> toggle_category_association [item_c] [''i3''] ''C'' ex_categories
       = Some [item_c\<lparr>categoryIds := Some []\<rparr>]
   \<and> toggle_category_association [item_c\<lparr>categoryIds := Some []\<rparr>] [''i3''] ''C''
         ex_categories
       = Some [item_c\<lparr>categoryIds := Some [''C'', ''B'', ''A'']\<rparr>]
   \<and> ''B'' \<in> set [''C'', ''B'', ''A''] \<and> ''B'' \<notin> set (get_categoryIds item_c)
   \<and> toggle_category_association [item_abc, item_a\<lparr>categoryIds := Some [''B'', ''A'']\<rparr>]
         [''i1'', ''i2''] ''C'' ex_categories
       = Some [item_abc, item_a\<lparr>categoryIds := Some [''C'', ''B'', ''A'']\<rparr>]
   \<and> toggle_category_association [item_abc, item_a\<lparr>categoryIds := Some [''C'', ''B'', ''A'']\<rparr>]
         [''i1'', ''i2''] ''C'' ex_categories
       = Some [item_abc\<lparr>categoryIds := Some [''B'', ''A'']\<rparr>,
               item_a\<lparr>categoryIds := Some [''B'', ''A'']\<rparr>]
   \<and> ''C'' \<notin> set [''B'', ''A''] \<and> ''C'' \<in> set (get_categoryIds item_abc)"
  by (simp add: toggle_category_association_def ex_descendants_C ex_ancestors_C
      item_abc_def item_a_def item_c_def get_categoryIds_def list_of_set_def)

text \<open>
  C3, amended. On an acyclic category list, when \<open>c\<close> has no descendants, every selected
  item already holds every proper ancestor of \<open>c\<close>, and the selection is uniform (every
  selected item holds \<open>c\<close>, or none does), two toggles in succession with the same
  selection and category return every item to its original set of category ids.
\<close>

theorem toggle_twice_restores:
  assumes acyc: "acyclic_categories categories"
    and leaf: "get_descendant_ids c categories = Some []"
    and chain: "get_ancestor_ids c categories = Some chain"
    and lineage: "\<forall>it\<in>set items. item_id it \<in> set item_ids \<longrightarrow>
                    set chain - {c} \<subseteq> set (get_categoryIds it)"
    and uniform: "(\<forall>it\<in>set items. item_id it \<in> set item_ids \<longrightarrow> c \<in> set (get_categoryIds it))
                  \<or> (\<forall>it\<in>set items. item_id it \<in> set item_ids \<longrightarrow> c \<notin> set (get_categoryIds it))"
  shows "\<exists>once twice.
           toggle_category_association items item_ids c categories = Some once
           \<and> toggle_category_association once item_ids c categories = Some twice
           \<and> map item_id twice = map item_id items
           \<and> map (\<lambda>it. set (get_categoryIds it)) twice
               = map (\<lambda>it. set (get_categoryIds it)) items"
proof -
  have c_in: "c \<in> set chain"
    using get_ancestor_ids_acyclic [OF acyc, of c] chain by auto
  note form = toggle_closed_form [OF leaf chain]
  consider
    (none) "\<forall>it\<in>set items. item_id it \<notin> set item_ids"
    | (remove) "\<exists>it\<in>set items. item_id it \<in> set item_ids"
        "\<forall>it\<in>set items. item_id it \<in> set item_ids \<longrightarrow> c \<in> set (get_categoryIds it)"
    | (add) "\<exists>it\<in>set items. item_id it \<in> set item_ids"
        "\<forall>it\<in>set items. item_id it \<in> set item_ids \<longrightarrow> c \<notin> set (get_categoryIds it)"
    using uniform by blast
  then show ?thesis
  proof cases
    case none
    then have "True \<longleftrightarrow>
        (\<forall>it\<in>set items. item_id it \<in> set item_ids \<longrightarrow> c \<in> set (get_categoryIds it))"
      by blast
    from form [OF this] none
    have "toggle_category_association items item_ids c categories = Some items"
      by (simp add: map_idI)
    then show ?thesis by simp
  next
    case remove
    let ?f = "\<lambda>it. if item_id it \<in> set item_ids
                   then it\<lparr>categoryIds := Some (list_of_set
                          (filter (\<lambda>x. x \<notin> set [c]) (get_categoryIds it)))\<rparr>
                   else it"
    let ?g = "\<lambda>it. if item_id it \<in> set item_ids
                   then it\<lparr>categoryIds := Some (list_of_set (get_categoryIds it @ chain))\<rparr>
                   else it"
    from remove(2) have "True \<longleftrightarrow>
        (\<forall>it\<in>set items. item_id it \<in> set item_ids \<longrightarrow> c \<in> set (get_categoryIds it))"
      by blast
    from form [OF this]
    have once: "toggle_category_association items item_ids c categories = Some (map ?f items)"
      by simp
    have not_all: "\<not> (\<forall>it\<in>set (map ?f items). item_id it \<in> set item_ids \<longrightarrow>
                        c \<in> set (get_categoryIds it))"
    proof -
      from remove(1) obtain it where it: "it \<in> set items" "item_id it \<in> set item_ids"
        by blast
      then have "?f it \<in> set (map ?f items)" unfolding set_map by (intro imageI)
      moreover from it have "item_id (?f it) \<in> set item_ids
                              \<and> c \<notin> set (get_categoryIds (?f it))"
        by (simp add: list_of_set_def)
      ultimately show ?thesis by blast
    qed
    from not_all have "False \<longleftrightarrow>
        (\<forall>it\<in>set (map ?f items). item_id it \<in> set item_ids \<longrightarrow>
                        c \<in> set (get_categoryIds it))"
      by blast
    from form [OF this]
    have twice: "toggle_category_association (map ?f items) item_ids c categories
                   = Some (map ?g (map ?f items))"
      by simp
    have ids: "map item_id (map ?g (map ?f items)) = map item_id items"
      by (simp add: comp_def)
    have sets: "map (\<lambda>it. set (get_categoryIds it)) (map ?g (map ?f items))
                  = map (\<lambda>it. set (get_categoryIds it)) items"
    proof -
      have "set (get_categoryIds (?g (?f it))) = set (get_categoryIds it)"
        if "it \<in> set items" for it
        using that remove(2) lineage c_in by (auto simp: list_of_set_def)
      then show ?thesis by simp
    qed
    from once twice ids sets show ?thesis by blast
  next
    case add
    let ?f = "\<lambda>it. if item_id it \<in> set item_ids
                   then it\<lparr>categoryIds := Some (list_of_set (get_categoryIds it @ chain))\<rparr>
                   else it"
    let ?g = "\<lambda>it. if item_id it \<in> set item_ids
                   then it\<lparr>categoryIds := Some (list_of_set
                          (filter (\<lambda>x. x \<notin> set [c]) (get_categoryIds it)))\<rparr>
                   else it"
    have not_all: "\<not> (\<forall>it\<in>set items. item_id it \<in> set item_ids \<longrightarrow>
                        c \<in> set (get_categoryIds it))"
      using add by blast
    from not_all have "False \<longleftrightarrow>
        (\<forall>it\<in>set items. item_id it \<in> set item_ids \<longrightarrow> c \<in> set (get_categoryIds it))"
      by blast
    from form [OF this]
    have once: "toggle_category_association items item_ids c categories = Some (map ?f items)"
      by simp
    have all': "\<forall>it\<in>set (map ?f items). item_id it \<in> set item_ids \<longrightarrow>
                        c \<in> set (get_categoryIds it)"
      using c_in by (auto simp: list_of_set_def)
    from all' have "True \<longleftrightarrow>
        (\<forall>it\<in>set (map ?f items). item_id it \<in> set item_ids \<longrightarrow>
                        c \<in> set (get_categoryIds it))"
      by blast
    from form [OF this]
    have twice: "toggle_category_association (map ?f items) item_ids c categories
                   = Some (map ?g (map ?f items))"
      by simp
    have ids: "map item_id (map ?g (map ?f items)) = map item_id items"
      by (simp add: comp_def)
    have sets: "map (\<lambda>it. set (get_categoryIds it)) (map ?g (map ?f items))
                  = map (\<lambda>it. set (get_categoryIds it)) items"
    proof -
      have "set (get_categoryIds (?g (?f it))) = set (get_categoryIds it)"
        if "it \<in> set items" for it
        using that add(2) lineage c_in by (auto simp: list_of_set_def)
      then show ?thesis by simp
    qed
    from once twice ids sets show ?thesis by blast
  qed
qed

theorem toggle_twice_restores_witness:
  "acyclic_categories ex_categories
   \<and> get_descendant_ids ''C'' ex_categories = Some []
   \<and> get_ancestor_ids ''C'' ex_categories = Some [''C'', ''B'', ''A'']
   \<and> item_id item_abc \<in> set [''i1''] \<and> item_id item_a \<notin> set [''i1'']
   \<and> get_categoryIds item_abc = [''C'', ''B'', ''A'']
   \<and> (\<exists>once twice.
         toggle_category_association [item_abc, item_a] [''i1''] ''C'' ex_categories = Some once
         \<and> toggle_category_association once [''i1''] ''C'' ex_categories = Some twice
         \<and> map item_id twice = map item_id [item_abc, item_a]
         \<and> map (\<lambda>it. set (get_categoryIds it)) twice
             = map (\<lambda>it. set (get_categoryIds it)) [item_abc, item_a])"
proof -
  have lineage: "\<forall>it\<in>set [item_abc, item_a]. item_id it \<in> set [''i1''] \<longrightarrow>
         set [''C'', ''B'', ''A''] - {''C''} \<subseteq> set (get_categoryIds it)"
    by (simp add: item_abc_def item_a_def get_categoryIds_def)
  have all_have: "\<forall>it\<in>set [item_abc, item_a]. item_id it \<in> set [''i1''] \<longrightarrow>
         ''C'' \<in> set (get_categoryIds it)"
    by (simp add: item_abc_def item_a_def get_categoryIds_def)
  from toggle_twice_restores [OF ex_categories_acyclic ex_descendants_C ex_ancestors_C
      lineage disjI1 [OF all_have]]
    ex_categories_acyclic ex_descendants_C ex_ancestors_C
  show ?thesis by (simp add: item_abc_def item_a_def get_categoryIds_def)
qed

section \<open>The sequence of item ids\<close>

lemma edits_selected_map:
  assumes "\<And>it. item_id (g it) = item_id it" and "\<And>it. \<not> selected it \<Longrightarrow> g it = it"
  shows "edits_selected selected items (map g items)"
  using assms by (simp add: edits_selected_def)

lemma edits_selected_refl: "edits_selected selected items items"
  by (simp add: edits_selected_def)

lemma remove_loop_Inr:
  "remove_loop iid c items f u = Inr (f', u') \<Longrightarrow>
   u' = u @ map (\<lambda>it. if item_id it = iid
                       then it\<lparr>categoryIds := Some (filter (\<lambda>cid. cid \<noteq> c) (get_categoryIds it))\<rparr>
                       else it) items"
proof (induction items arbitrary: f u)
  case Nil
  then show ?case by simp
next
  case (Cons it rest)
  show ?case
  proof (cases "item_id it = iid")
    case True
    with Cons.prems have
      "remove_loop iid c rest True
         (u @ [it\<lparr>categoryIds := Some (filter (\<lambda>cid. cid \<noteq> c) (get_categoryIds it))\<rparr>])
       = Inr (f', u')"
      by (simp add: Let_def split: if_splits)
    from Cons.IH [OF this] True show ?thesis by simp
  next
    case False
    with Cons.prems have "remove_loop iid c rest f (u @ [it]) = Inr (f', u')" by simp
    from Cons.IH [OF this] False show ?thesis by simp
  qed
qed

lemma remove_category_from_item_edits:
  "edits_selected (\<lambda>it. item_id it = iid) items (fst (remove_category_from_item items iid c))"
proof (cases "remove_loop iid c items False []")
  case (Inl msg)
  then show ?thesis by (simp add: remove_category_from_item_def edits_selected_refl)
next
  case (Inr p)
  obtain f' u' where p: "p = (f', u')" by (cases p)
  from remove_loop_Inr [OF Inr [unfolded p]] have
    u': "u' = map (\<lambda>it. if item_id it = iid
                       then it\<lparr>categoryIds := Some (filter (\<lambda>cid. cid \<noteq> c) (get_categoryIds it))\<rparr>
                       else it) items"
    by simp
  have "edits_selected (\<lambda>it. item_id it = iid) items u'"
    unfolding u' by (rule edits_selected_map) simp_all
  with Inr p show ?thesis
    by (simp add: remove_category_from_item_def edits_selected_refl)
qed

lemma batch_remove_categories_edits:
  "edits_selected (\<lambda>it. item_id it \<in> set item_ids) items
     (fst (batch_remove_categories items item_ids cs))"
proof -
  have "edits_selected (\<lambda>it. item_id it \<in> set item_ids) items
     (map (\<lambda>it.
         if item_id it \<in> set item_ids
            \<and> filter (\<lambda>cid. cid \<notin> set cs) (get_categoryIds it) \<noteq> []
         then it\<lparr>categoryIds := Some (filter (\<lambda>cid. cid \<notin> set cs) (get_categoryIds it))\<rparr>
         else it) items)"
    by (rule edits_selected_map) simp_all
  then show ?thesis
    by (simp add: batch_remove_categories_def batch_remove_loop_result edits_selected_refl)
qed

lemma batch_edit_edits:
  "edits_selected (\<lambda>it. item_id it \<in> set item_ids) items
     (batch_edit isspace items item_ids d c)"
  unfolding batch_edit_def
  by (rule edits_selected_map) (auto simp: Let_def split: option.splits)

lemma batch_add_tags_edits:
  "batch_add_tags items item_ids c cats = Some r \<Longrightarrow>
   edits_selected (\<lambda>it. item_id it \<in> set item_ids) items r"
  by (auto simp: batch_add_tags_def Option.bind_eq_Some_conv intro!: edits_selected_map)

lemma toggle_edits:
  "toggle_category_association items item_ids c cats = Some r \<Longrightarrow>
   edits_selected (\<lambda>it. item_id it \<in> set item_ids) items r"
  by (auto simp: toggle_category_association_def Let_def Option.bind_eq_Some_conv
      split: if_splits intro!: edits_selected_map)

text \<open>
  C9. \<^verbatim>\<open>batch_add_tags\<close>, \<^verbatim>\<open>toggle_category_association\<close>, \<^verbatim>\<open>batch_edit\<close>,
  \<^verbatim>\<open>batch_remove_categories\<close> and \<^verbatim>\<open>remove_category_from_item\<close> return a list with the ids
  of the input list, position by position (so of the same length), and with every item
  that is not selected as it was. The first two return on every acyclic category list.
\<close>

theorem mutations_preserve_item_ids:
  "(\<forall>r. batch_add_tags items item_ids c categories = Some r \<longrightarrow>
        map item_id r = map item_id items
        \<and> (\<forall>i<length items. item_id (items ! i) \<notin> set item_ids \<longrightarrow> r ! i = items ! i))
   \<and> (\<forall>r. toggle_category_association items item_ids c categories = Some r \<longrightarrow>
        map item_id r = map item_id items
        \<and> (\<forall>i<length items. item_id (items ! i) \<notin> set item_ids \<longrightarrow> r ! i = items ! i))
   \<and> map item_id (batch_edit isspace items item_ids descr opt_category) = map item_id items
   \<and> (\<forall>i<length items. item_id (items ! i) \<notin> set item_ids \<longrightarrow>
          batch_edit isspace items item_ids descr opt_category ! i = items ! i)
   \<and> map item_id (fst (batch_remove_categories items item_ids category_ids))
       = map item_id items
   \<and> (\<forall>i<length items. item_id (items ! i) \<notin> set item_ids \<longrightarrow>
          fst (batch_remove_categories items item_ids category_ids) ! i = items ! i)
   \<and> map item_id (fst (remove_category_from_item items iid c)) = map item_id items
   \<and> (\<forall>i<length items. item_id (items ! i) \<noteq> iid \<longrightarrow>
          fst (remove_category_from_item items iid c) ! i = items ! i)
   \<and> (acyclic_categories categories \<longrightarrow>
        (\<exists>r. batch_add_tags items item_ids c categories = Some r)
        \<and> (\<exists>r. toggle_category_association items item_ids c categories = Some r))"
proof -
  have "\<exists>r. batch_add_tags items item_ids c categories = Some r"
    if "acyclic_categories categories"
    using expand_category_ids_acyclic [OF that, of "[c]"]
    by (auto simp: batch_add_tags_def)
  moreover have "\<exists>r. toggle_category_association items item_ids c categories = Some r"
    if "acyclic_categories categories"
    using get_descendant_ids_acyclic [OF that, of c] get_ancestor_ids_acyclic [OF that, of c]
      toggle_closed_form [where c = c and cats = categories and items = items
        and item_ids = item_ids, OF _ _ refl]
    by blast
  ultimately show ?thesis
    using batch_add_tags_edits [of items item_ids c categories]
      toggle_edits [of items item_ids c categories]
      batch_edit_edits [of item_ids items isspace descr opt_category]
      batch_remove_categories_edits [of item_ids items category_ids]
      remove_category_from_item_edits [of iid items c]
    unfolding edits_selected_def by simp
qed

theorem mutations_preserve_item_ids_witness:
  "acyclic_categories ex_categories
   \<and> batch_add_tags [item_abc, item_a, item_c] [''i2''] ''B'' ex_categories
       = Some [item_abc, item_a\<lparr>categoryIds := Some [''B'', ''A'']\<rparr>, item_c]
   \<and> map item_id [item_abc, item_a\<lparr>categoryIds := Some [''B'', ''A'']\<rparr>, item_c]
       = map item_id [item_abc, item_a, item_c]
   \<and> item_id item_abc \<notin> set [''i2''] \<and> item_id item_a \<in> set [''i2'']
   \<and> item_id item_c \<noteq> ''i2''"
proof -
  have run: "batch_add_tags [item_abc, item_a, item_c] [''i2''] ''B'' ex_categories
       = Some [item_abc, item_a\<lparr>categoryIds := Some [''B'', ''A'']\<rparr>, item_c]"
    by (simp add: batch_add_tags_def expand_category_ids_def get_ancestor_ids_def
        ancestors_loop.simps ex_categories_def list_of_set_def item_abc_def item_a_def
        item_c_def get_categoryIds_def)
  from mutations_preserve_item_ids [of "[item_abc, item_a, item_c]" "[''i2'']" "''B''"
      ex_categories] run
  have "map item_id [item_abc, item_a\<lparr>categoryIds := Some [''B'', ''A'']\<rparr>, item_c]
       = map item_id [item_abc, item_a, item_c]"
    by blast
  then show ?thesis
    using run ex_categories_acyclic
    by (simp add: item_abc_def item_a_def item_c_def)
qed

end
